theory Spec2Isabelle
  imports Main
begin

section \<open>Constants\<close>

text \<open>
  Both source files start with \<^verbatim>\<open>from constants import *\<close>, and the module
  \<^verbatim>\<open>constants\<close> is not among the sources. The five cell values, the two players
  and the table \<^verbatim>\<open>OPOSITES\<close> are therefore modelled from the specification, which
  lists the cell values as Empty, GreenMan, GreenKing, OrangeMan, OrangeKing and the
  players as Green and Orange. The constructors keep the names the code uses.
\<close>

datatype cell = EMPTY | GREEN_PIECE | GREEN_QUEEN | ORANGE_PIECE | ORANGE_QUEEN

datatype player = PLAYER_GREEN | PLAYER_ORANGE

definition OPOSITES :: "player \<Rightarrow> cell list" where
  \<comment> \<open>Modelled from the spec: the table \<^verbatim>\<open>OPOSITES\<close> of the missing module
      \<^verbatim>\<open>constants\<close>; a jump needs the adjacent square to be
      "occupied by an opponent piece", man or king.\<close>
  "OPOSITES p = (case p of
        PLAYER_GREEN \<Rightarrow> [ORANGE_PIECE, ORANGE_QUEEN]
      | PLAYER_ORANGE \<Rightarrow> [GREEN_PIECE, GREEN_QUEEN])"

definition ENUM_NORMAL :: "player \<Rightarrow> cell" where
  \<comment> \<open>Modelled from the spec: the table \<^verbatim>\<open>ENUM_NORMAL\<close> of the missing module
      \<^verbatim>\<open>constants\<close>, the man of each player.\<close>
  "ENUM_NORMAL p = (case p of PLAYER_GREEN \<Rightarrow> GREEN_PIECE | PLAYER_ORANGE \<Rightarrow> ORANGE_PIECE)"

definition ENUM_PROMOTED :: "player \<Rightarrow> cell" where
  \<comment> \<open>Modelled from the spec: the table \<^verbatim>\<open>ENUM_PROMOTED\<close> of the missing module
      \<^verbatim>\<open>constants\<close>, the king of each player.\<close>
  "ENUM_PROMOTED p = (case p of PLAYER_GREEN \<Rightarrow> GREEN_QUEEN | PLAYER_ORANGE \<Rightarrow> ORANGE_QUEEN)"

section \<open>Python values, lists and exceptions\<close>

text \<open>
  The only exception the game logic can raise is the \<^verbatim>\<open>IndexError\<close> of a list
  subscript. A Python subscript \<^verbatim>\<open>xs[i]\<close> accepts \<open>- len xs \<le> i < len xs\<close>, a negative
  index counting from the end, and raises outside of that interval.
\<close>

datatype error = IndexError

definition py_norm :: "'a list \<Rightarrow> int \<Rightarrow> int" where
  "py_norm xs i = (if i < 0 then int (length xs) + i else i)"

definition py_valid :: "'a list \<Rightarrow> int \<Rightarrow> bool" where
  "py_valid xs i = (0 \<le> py_norm xs i \<and> py_norm xs i < int (length xs))"

definition py_getitem :: "'a list \<Rightarrow> int \<Rightarrow> error + 'a" where
  "py_getitem xs i =
     (if py_valid xs i then Inr (xs ! nat (py_norm xs i)) else Inl IndexError)"

definition py_setitem :: "'a list \<Rightarrow> int \<Rightarrow> 'a \<Rightarrow> error + 'a list" where
  "py_setitem xs i v =
     (if py_valid xs i then Inr (xs[nat (py_norm xs i) := v]) else Inl IndexError)"

text \<open>\<^verbatim>\<open>board[r][c]\<close> and \<^verbatim>\<open>board[r][c] = v\<close> on a list of rows.\<close>

definition get2 :: "'a list list \<Rightarrow> int \<Rightarrow> int \<Rightarrow> error + 'a" where
  "get2 b r c = (case py_getitem b r of Inl e \<Rightarrow> Inl e | Inr row \<Rightarrow> py_getitem row c)"

definition set2 :: "'a list list \<Rightarrow> int \<Rightarrow> int \<Rightarrow> 'a \<Rightarrow> error + 'a list list" where
  "set2 b r c v =
     (case py_getitem b r of
        Inl e \<Rightarrow> Inl e
      | Inr row \<Rightarrow>
          (case py_setitem row c v of
             Inl e \<Rightarrow> Inl e
           | Inr row' \<Rightarrow> Inr (b[nat (py_norm b r) := row'])))"

text \<open>
  \<^verbatim>\<open>check_longer_move\<close> returns \<^verbatim>\<open>None\<close> from its bare \<^verbatim>\<open>return\<close> and a boolean
  otherwise; the value is \<open>None\<close> or \<open>Some b\<close>. Python's \<^verbatim>\<open>or\<close> yields its left
  operand when that is truthy and its right operand otherwise.
\<close>

type_synonym pybool = "bool option"

definition truthy :: "pybool \<Rightarrow> bool" where
  "truthy v = (v = Some True)"

definition py_or :: "pybool \<Rightarrow> pybool \<Rightarrow> pybool" where
  "py_or a b = (if truthy a then a else b)"

section \<open>The game state\<close>

text \<open>The attributes of \<^verbatim>\<open>CheckersLogic\<close>, as \<^verbatim>\<open>init_game\<close> creates them.\<close>

record checkers_logic =
  board :: "cell list list"
  green_pieces :: int
  orange_pieces :: int
  eaten_pieces :: "(int \<times> int) list"
  current_player :: player
  winner :: "player option"
  memo :: "(int \<times> int) set"

text \<open>
  A method call yields the value it returns, or the exception it raises, together with
  the object as the call left it: what was assigned before an exception stays assigned.
\<close>

type_synonym 'a outcome = "(error + 'a) \<times> checkers_logic"

definition bindE :: "'a outcome \<Rightarrow> ('a \<Rightarrow> checkers_logic \<Rightarrow> 'b outcome) \<Rightarrow> 'b outcome" where
  "bindE m f = (case m of (Inl e, s) \<Rightarrow> (Inl e, s) | (Inr x, s) \<Rightarrow> f x s)"

lemma bindE_cong [fundef_cong]:
  "m = m' \<Longrightarrow> (\<And>x s. m' = (Inr x, s) \<Longrightarrow> f x s = f' x s) \<Longrightarrow> bindE m f = bindE m' f'"
  by (auto simp: bindE_def split: prod.splits sum.splits)

section \<open>The methods of CheckersLogic\<close>

definition range_step2 :: "nat \<Rightarrow> nat \<Rightarrow> nat list" where
  \<comment> \<open>\<^verbatim>\<open>range(lo, hi, 2)\<close>\<close>
  "range_step2 lo hi = map (\<lambda>k. lo + 2 * k) [0..<(hi + 1 - lo) div 2]"

definition init_board :: "cell list list" where
  "init_board =
     fold (\<lambda>row_index b.
        let col_begin = (if row_index mod 2 = 0 then 1 else 0) in
        if row_index < 3 then
          fold (\<lambda>col_index b. b[row_index := (b ! row_index)[col_index := GREEN_PIECE]])
            (range_step2 col_begin 8) b
        else if row_index > 4 then
          fold (\<lambda>col_index b. b[row_index := (b ! row_index)[col_index := ORANGE_PIECE]])
            (range_step2 col_begin 8) b
        else b)
       [0..<8] (replicate 8 (replicate 8 EMPTY))"

definition init_game :: checkers_logic where
  "init_game = \<lparr> board = init_board, green_pieces = 12, orange_pieces = 12,
      eaten_pieces = [], current_player = PLAYER_GREEN, winner = None, memo = {} \<rparr>"

definition change_player :: "checkers_logic \<Rightarrow> checkers_logic" where
  "change_player s =
     s\<lparr>current_player :=
         (if current_player s = PLAYER_ORANGE then PLAYER_GREEN else PLAYER_ORANGE)\<rparr>"

definition get_piece :: "checkers_logic \<Rightarrow> int \<Rightarrow> int \<Rightarrow> error + cell" where
  "get_piece s row col = get2 (board s) row col"

definition check_basic_move :: "checkers_logic \<Rightarrow> int \<Rightarrow> int \<Rightarrow> error + bool" where
  "check_basic_move s end_row end_col =
     (case get_piece s end_row end_col of
        Inl e \<Rightarrow> Inl e
      | Inr p \<Rightarrow> Inr (if p \<noteq> EMPTY then True else False))"

definition check_opposite :: "player \<Rightarrow> cell \<Rightarrow> bool" where
  "check_opposite pl piece_two = (if List.member (OPOSITES pl) piece_two then True else False)"

function check_longer_move ::
  "cell \<Rightarrow> int \<Rightarrow> int \<Rightarrow> int \<Rightarrow> int \<Rightarrow> (int \<times> int) list \<Rightarrow> checkers_logic \<Rightarrow> pybool outcome"
where
  "check_longer_move piece init_row init_col end_row end_col eaten s =
    (if (init_row, init_col) \<in> memo s then (Inr None, s)
     else
      let s = s\<lparr>memo := insert (init_row, init_col) (memo s)\<rparr> in
      if init_row = end_row \<and> init_col = end_col then
        (Inr (Some True), s\<lparr>eaten_pieces := eaten\<rparr>)
      else
       bindE
         (if piece = GREEN_PIECE \<or> piece = GREEN_QUEEN \<or> piece = ORANGE_QUEEN then
            if init_row \<le> int (length (board s)) - 3 then
              bindE
                (if init_col \<ge> 2 then
                   bindE (get2 (board s) (init_row + 1) (init_col - 1), s)
                     (\<lambda>over s.
                        if check_opposite (current_player s) over then
                          check_longer_move piece (init_row + 2) (init_col - 2) end_row end_col
                            (eaten @ [(init_row + 1, init_col - 1)]) s
                        else (Inr (Some False), s))
                 else (Inr (Some False), s))
                (\<lambda>top_right s.
                   bindE
                     (if init_col \<le> int (length (board s)) - 3 then
                        bindE (get2 (board s) (init_row + 1) (init_col + 1), s)
                          (\<lambda>over s.
                             if check_opposite (current_player s) over then
                               check_longer_move piece (init_row + 2) (init_col + 2) end_row end_col
                                 (eaten @ [(init_row + 1, init_col + 1)]) s
                             else (Inr (Some False), s))
                      else (Inr (Some False), s))
                     (\<lambda>top_left s. (Inr (top_right, top_left), s)))
            else (Inr (Some False, Some False), s)
          else (Inr (Some False, Some False), s))
         (\<lambda>tops s. case tops of (top_right, top_left) \<Rightarrow>
            bindE
              (if piece = ORANGE_PIECE \<or> piece = GREEN_QUEEN \<or> piece = ORANGE_QUEEN then
                 if init_row \<ge> 2 then
                   bindE
                     (if init_col \<le> int (length (board s)) - 3 then
                        bindE (get2 (board s) (init_row - 1) (init_col + 1), s)
                          (\<lambda>over s.
                             if check_opposite (current_player s) over then
                               check_longer_move piece (init_row - 2) (init_col + 2) end_row end_col
                                 (eaten @ [(init_row - 1, init_col + 1)]) s
                             else (Inr (Some False), s))
                      else (Inr (Some False), s))
                     (\<lambda>bottom_right s.
                        bindE
                          (if init_col \<ge> 2 then
                             bindE (get2 (board s) (init_row - 1) (init_col - 1), s)
                               (\<lambda>over s.
                                  if check_opposite (current_player s) over then
                                    check_longer_move piece (init_row - 2) (init_col - 2) end_row end_col
                                      (eaten @ [(init_row - 1, init_col - 1)]) s
                                  else (Inr (Some False), s))
                           else (Inr (Some False), s))
                          (\<lambda>bottom_left s. (Inr (bottom_right, bottom_left), s)))
                 else (Inr (Some False, Some False), s)
               else (Inr (Some False, Some False), s))
              (\<lambda>bottoms s. case bottoms of (bottom_right, bottom_left) \<Rightarrow>
                 (Inr (py_or (py_or (py_or top_right top_left) bottom_right) bottom_left), s))))"
  by pat_completeness auto

definition check_valid_piece :: "checkers_logic \<Rightarrow> int \<Rightarrow> int \<Rightarrow> error + bool" where
  "check_valid_piece s init_row init_col =
     (case get_piece s init_row init_col of
        Inl e \<Rightarrow> Inl e
      | Inr piece \<Rightarrow>
          Inr (if piece \<noteq> ENUM_NORMAL (current_player s) \<and> piece \<noteq> ENUM_PROMOTED (current_player s)
               then False else True))"

definition check_wrong_direction :: "checkers_logic \<Rightarrow> int \<Rightarrow> int \<Rightarrow> int \<Rightarrow> error + bool" where
  "check_wrong_direction s init_row init_col end_row =
     (let difference = end_row - init_row in
      case get_piece s init_row init_col of
        Inl e \<Rightarrow> Inl e
      | Inr piece \<Rightarrow>
          Inr (if piece = GREEN_PIECE \<and> difference \<le> 0 then True
               else if piece = ORANGE_PIECE \<and> difference \<ge> 0 then True
               else False))"

definition check_same_move :: "int \<Rightarrow> int \<Rightarrow> int \<Rightarrow> int \<Rightarrow> bool" where
  "check_same_move init_row init_col end_row end_col =
     (if init_row = end_row \<and> init_col = end_col then True else False)"

definition validate_move ::
  "checkers_logic \<Rightarrow> int \<Rightarrow> int \<Rightarrow> int \<Rightarrow> int \<Rightarrow> (bool \<times> string) outcome"
where
  "validate_move s init_row init_col end_row end_col =
    (if check_same_move init_row init_col end_row end_col then
       (Inr (False, ''You have to move the piece''), s)
     else
       bindE (check_wrong_direction s init_row init_col end_row, s)
         (\<lambda>wrong s.
            if wrong then (Inr (False, ''You have to move forward''), s)
            else if \<bar>end_row - init_row\<bar> = 1 \<and> \<bar>init_col - end_col\<bar> = 1 then
              bindE (check_basic_move s end_row end_col, s)
                (\<lambda>occupied s.
                   if occupied then
                     (Inr (False, ''You can not move there, there is already a piece''), s)
                   else (Inr (True, ''''), s))
            else
              let s = s\<lparr>memo := {}\<rparr> in
              bindE (get_piece s init_row init_col, s)
                (\<lambda>piece s.
                   bindE (check_longer_move piece init_row init_col end_row end_col [] s)
                     (\<lambda>found s.
                        if \<not> truthy found then (Inr (False, ''That move is not allowed''), s)
                        else (Inr (True, ''''), s)))))"

text \<open>The statement \<^verbatim>\<open>self.board[row][col] = value\<close>.\<close>

definition board_assign :: "checkers_logic \<Rightarrow> int \<Rightarrow> int \<Rightarrow> cell \<Rightarrow> unit outcome" where
  "board_assign s row col v =
     (case set2 (board s) row col v of
        Inl e \<Rightarrow> (Inl e, s)
      | Inr b \<Rightarrow> (Inr (), s\<lparr>board := b\<rparr>))"

text \<open>
  The loop of \<^verbatim>\<open>eat_pieces\<close> over the pending captures: it clears one square per
  entry and counts the entries; a subscript out of range stops it with the squares
  cleared so far.
\<close>

fun eat_loop :: "(int \<times> int) list \<Rightarrow> cell list list \<Rightarrow> int \<Rightarrow> (error + int) \<times> cell list list" where
  "eat_loop [] b counter = (Inr counter, b)"
| "eat_loop (piece # rest) b counter =
     (case set2 b (fst piece) (snd piece) EMPTY of
        Inl e \<Rightarrow> (Inl e, b)
      | Inr b' \<Rightarrow> eat_loop rest b' (counter + 1))"

definition eat_pieces :: "checkers_logic \<Rightarrow> unit outcome" where
  "eat_pieces s =
     (case eat_loop (eaten_pieces s) (board s) 0 of
        (Inl e, b) \<Rightarrow> (Inl e, s\<lparr>board := b\<rparr>)
      | (Inr counter, b) \<Rightarrow>
          (Inr (),
           (if current_player s = PLAYER_GREEN
            then s\<lparr>board := b, orange_pieces := orange_pieces s - counter\<rparr>
            else s\<lparr>board := b, green_pieces := green_pieces s - counter\<rparr>)
           \<lparr>eaten_pieces := []\<rparr>))"

definition check_piece_promotion_and_promote :: "checkers_logic \<Rightarrow> int \<Rightarrow> int \<Rightarrow> unit outcome" where
  "check_piece_promotion_and_promote s end_row end_col =
     bindE
       (if current_player s = PLAYER_GREEN \<and> end_row = int (length (board s)) - 1
        then board_assign s end_row end_col GREEN_QUEEN else (Inr (), s))
       (\<lambda>_ s.
          if current_player s = PLAYER_ORANGE \<and> end_row = 0
          then board_assign s end_row end_col ORANGE_QUEEN else (Inr (), s))"

definition check_end :: "checkers_logic \<Rightarrow> checkers_logic" where
  "check_end s =
     (let s = (if green_pieces s = 0 then s\<lparr>winner := Some PLAYER_ORANGE\<rparr> else s)
      in if orange_pieces s = 0 then s\<lparr>winner := Some PLAYER_GREEN\<rparr> else s)"

definition perform_move :: "checkers_logic \<Rightarrow> int \<Rightarrow> int \<Rightarrow> int \<Rightarrow> int \<Rightarrow> bool outcome" where
  "perform_move s init_row init_col end_row end_col =
     bindE (get2 (board s) init_row init_col, s)
       (\<lambda>moved s.
          bindE (board_assign s end_row end_col moved)
            (\<lambda>_ s.
               bindE
                 (if init_row \<noteq> end_row \<or> init_col \<noteq> end_col
                  then board_assign s init_row init_col EMPTY else (Inr (), s))
                 (\<lambda>_ s.
                    bindE (if length (eaten_pieces s) > 0 then eat_pieces s else (Inr (), s))
                      (\<lambda>_ s.
                         bindE (check_piece_promotion_and_promote s end_row end_col)
                           (\<lambda>_ s. (Inr True, check_end s))))))"

section \<open>Reasoning about outcomes\<close>

text \<open>
  \<open>post m E Q\<close>: if the call \<open>m\<close> raised, the object it left satisfies \<open>E\<close>; if it
  returned \<open>x\<close>, the value and the object satisfy \<open>Q x\<close>.
\<close>

definition post :: "'a outcome \<Rightarrow> (checkers_logic \<Rightarrow> bool) \<Rightarrow> ('a \<Rightarrow> checkers_logic \<Rightarrow> bool) \<Rightarrow> bool" where
  "post m E Q = (case m of (Inl e, t) \<Rightarrow> E t | (Inr x, t) \<Rightarrow> Q x t)"

lemma post_bindE:
  "post m E (\<lambda>x t. m = (Inr x, t) \<longrightarrow> post (f x t) E Q) \<Longrightarrow> post (bindE m f) E Q"
  by (cases m) (auto simp: post_def bindE_def split: sum.splits)

lemma post_if:
  "(c \<Longrightarrow> post a E Q) \<Longrightarrow> (\<not> c \<Longrightarrow> post b E Q) \<Longrightarrow> post (if c then a else b) E Q"
  by simp

lemma post_let: "(\<And>x. x = v \<Longrightarrow> post (f x) E Q) \<Longrightarrow> post (Let v f) E Q"
  by simp

lemma post_prod:
  "(\<And>a b. (a, b) = p \<Longrightarrow> post (f a b) E Q) \<Longrightarrow> post (case p of (a, b) \<Rightarrow> f a b) E Q"
  by (cases p) auto

lemma post_ret: "Q x t \<Longrightarrow> post (Inr x, t) E Q"
  by (simp add: post_def)

lemma post_get2:
  "(get2 b r c = Inl IndexError \<Longrightarrow> E t) \<Longrightarrow> (\<And>x. get2 b r c = Inr x \<Longrightarrow> Q x t) \<Longrightarrow> post (get2 b r c, t) E Q"
  by (cases "get2 b r c") (auto simp: post_def intro: error.exhaust)

lemma post_conseq:
  "post m E Q \<Longrightarrow> (\<And>t. E t \<Longrightarrow> E' t) \<Longrightarrow> (\<And>x t. Q x t \<Longrightarrow> Q' x t) \<Longrightarrow> post m E' Q'"
  by (cases m) (auto simp: post_def split: sum.splits)

definition ext :: "checkers_logic \<Rightarrow> checkers_logic \<Rightarrow> bool" where
  "ext s t =
     (board t = board s \<and> green_pieces t = green_pieces s \<and> orange_pieces t = orange_pieces s \<and>
      current_player t = current_player s \<and> winner t = winner s \<and> memo s \<subseteq> memo t)"

lemma ext_refl: "ext s s" by (simp add: ext_def)
lemma ext_trans: "ext s t \<Longrightarrow> ext t u \<Longrightarrow> ext s u" by (auto simp: ext_def)

lemma inv_bindE:
  "post m E (\<lambda>_. I) \<Longrightarrow> (\<And>x t. m = (Inr x, t) \<Longrightarrow> I t \<Longrightarrow> post (f x t) E (\<lambda>_. I))
     \<Longrightarrow> post (bindE m f) E (\<lambda>_. I)"
  by (cases m) (auto simp: post_def bindE_def split: sum.splits)

lemma clm_dom_ext:
  "check_longer_move_dom (p, r, c, er, ec, e, s) \<Longrightarrow>
     post (check_longer_move p r c er ec e s) (ext s) (\<lambda>_. ext s)"
proof (induct rule: check_longer_move.pinduct)
  case (1 piece init_row init_col end_row end_col eaten s)
  note IH = "1.hyps"(2-5)[THEN post_conseq]
  show ?case
    apply (subst check_longer_move.psimps[OF "1.hyps"(1)])
    apply ((intro post_if post_let inv_bindE post_prod post_get2 post_ret impI allI conjI
           | (rule IH(1), assumption+) | (rule IH(2), assumption+)
           | (rule IH(3), assumption+) | (rule IH(4), assumption+)
           | (auto simp: ext_def; fail))+)
    done
qed

definition span :: "cell list list \<Rightarrow> int" where
  "span b = int (length b) + int (sum_list (map length b)) + 1"

definition near :: "cell list list \<Rightarrow> (int \<times> int) set" where
  "near b = {- span b .. span b} \<times> {- span b .. span b}"

lemma finite_near: "finite (near b)"
  by (simp add: near_def)

lemma py_getitem_bound: "py_getitem xs i = Inr x \<Longrightarrow> - int (length xs) \<le> i \<and> i < int (length xs) \<and> x \<in> set xs"
  by (auto simp: py_getitem_def py_valid_def py_norm_def split: if_splits)

lemma get2_near:
  assumes "get2 b i j = Inr v" "\<bar>i - r\<bar> = 1" "\<bar>j - c\<bar> = 1"
  shows "(r, c) \<in> near b"
proof -
  from assms(1) obtain row where row: "py_getitem b i = Inr row" "py_getitem row j = Inr v"
    by (auto simp: get2_def split: sum.splits)
  from row(1) have i: "- int (length b) \<le> i" "i < int (length b)" "row \<in> set b"
    by (auto dest: py_getitem_bound)
  from row(2) have j: "- int (length row) \<le> j" "j < int (length row)"
    by (auto dest: py_getitem_bound)
  have "length row \<le> sum_list (map length b)"
    using i(3) by (simp add: member_le_sum_list)
  with i j assms(2,3) show ?thesis
    by (auto simp: near_def span_def)
qed

lemma measure_decr:
  assumes "(r, c) \<notin> memo s" "x = s\<lparr>memo := insert (r, c) (memo s)\<rparr>" "ext x t"
    "(get2 (board t) i j, t) = (Inr v, t')" "\<bar>i - r\<bar> = 1" "\<bar>j - c\<bar> = 1"
  shows "((p', r', c', er', ec', e', t'), (p, r, c, er, ec, e, s))
           \<in> measure (\<lambda>(p, r, c, er, ec, e, s). card (near (board s) - memo s))"
proof -
  have b: "board t = board s" and m: "insert (r, c) (memo s) \<subseteq> memo t"
    using assms(2,3) by (auto simp: ext_def)
  have t': "t' = t" and g: "get2 (board t) i j = Inr v"
    using assms(4) by auto
  have "(r, c) \<in> near (board s)"
    using get2_near[OF g assms(5,6)] b by simp
  with assms(1) m have "near (board s) - memo t \<subset> near (board s) - memo s"
    by auto
  then have "card (near (board s) - memo t) < card (near (board s) - memo s)"
    by (intro psubset_card_mono) (auto simp: finite_near)
  then show ?thesis
    by (simp add: b t')
qed

lemma post_eqD: "m = (Inr v, t) \<Longrightarrow> post m (\<lambda>_. True) (\<lambda>_. I) \<Longrightarrow> I t"
  by (simp add: post_def)

lemmas post_rules = post_if post_let inv_bindE post_prod post_get2 post_ret impI allI conjI

termination check_longer_move
proof (relation "measure (\<lambda>(p, r, c, er, ec, e, s). card (near (board s) - memo s))", goal_cases)
  case 1
  show ?case by simp
next
  case prems: (2 piece init_row init_col end_row end_col eaten s x xa sa)
  show ?case
    by (rule measure_decr[OF prems(1,2) ext_refl prems(7)]) simp_all
next
  case prems: (3 piece init_row init_col end_row end_col eaten s x xa sa xb sb)
  have "ext x sa"
    apply (rule post_eqD[where I = "ext x", OF prems(6)])
    apply ((intro post_rules
           | (rule clm_dom_ext[THEN post_conseq], rule prems, assumption+)
           | (auto simp: ext_def; fail))+)
    done
  then show ?case
    by (rule measure_decr[OF prems(1,2) _ prems(8)]) simp_all
next
  case prems: (4 piece init_row init_col end_row end_col eaten s x xa sa xb y xc sb)
  have "ext x sa"
    apply (rule post_eqD[where I = "ext x", OF prems(4)])
    apply ((intro post_rules
           | (rule clm_dom_ext[THEN post_conseq], rule prems, assumption+)
           | (auto simp: ext_def; fail))+)
    done
  then show ?case
    by (rule measure_decr[OF prems(1,2) _ prems(9)]) simp_all
next
  case prems: (5 piece init_row init_col end_row end_col eaten s x xa sa xb y xc sb xd sc)
  have "ext x sa"
    apply (rule post_eqD[where I = "ext x", OF prems(4)])
    apply ((intro post_rules
           | (rule clm_dom_ext[THEN post_conseq], rule prems, assumption+)
           | (auto simp: ext_def; fail))+)
    done
  moreover have "ext sa sb"
    apply (rule post_eqD[where I = "ext sa", OF prems(8)])
    apply ((intro post_rules
           | (rule clm_dom_ext[THEN post_conseq], rule prems, assumption+)
           | (auto simp: ext_def; fail))+)
    done
  ultimately have "ext x sb" by (rule ext_trans)
  then show ?case
    by (rule measure_decr[OF prems(1,2) _ prems(10)]) simp_all
qed

text \<open>
  The equation of \<open>check_longer_move\<close> rewrites every call, the recursive ones it brings
  along included; it is applied by hand where it is wanted.
\<close>

declare check_longer_move.simps [simp del]

section \<open>Invariants of the capture search\<close>

text \<open>
  The board of a game is the 8 by 8 grid \<^verbatim>\<open>init_game\<close> builds; no method changes its
  shape. \<open>on_board\<close> are the coordinates 0..7 the user interface lets through.
\<close>

definition wf_board :: "cell list list \<Rightarrow> bool" where
  "wf_board b = (length b = 8 \<and> list_all (\<lambda>row. length row = 8) b)"

definition on_board :: "int \<Rightarrow> int \<Rightarrow> bool" where
  "on_board r c = (0 \<le> r \<and> r < 8 \<and> 0 \<le> c \<and> c < 8)"

definition squares :: "(int \<times> int) set" where
  "squares = {0..7} \<times> {0..7}"

text \<open>
  The squares at or above \<open>(r, c)\<close> inside the two diagonals through it, and those at or
  below it.
\<close>

definition up_cone :: "int \<Rightarrow> int \<Rightarrow> (int \<times> int) set" where
  "up_cone r c = {(r', c'). r \<le> r' \<and> \<bar>c' - c\<bar> \<le> r' - r}"

definition down_cone :: "int \<Rightarrow> int \<Rightarrow> (int \<times> int) set" where
  "down_cone r c = {(r', c'). r' \<le> r \<and> \<bar>c' - c\<bar> \<le> r - r'}"

definition reach :: "cell \<Rightarrow> int \<Rightarrow> int \<Rightarrow> (int \<times> int) set" where
  "reach piece r c =
     (case piece of
        GREEN_PIECE \<Rightarrow> up_cone r c
      | ORANGE_PIECE \<Rightarrow> down_cone r c
      | EMPTY \<Rightarrow> {(r, c)}
      | _ \<Rightarrow> UNIV)"

lemma get2_on_board:
  "wf_board b \<Longrightarrow> on_board r c \<Longrightarrow> get2 b r c = Inr (b ! nat r ! nat c)"
  by (auto simp: wf_board_def on_board_def get2_def py_getitem_def py_valid_def py_norm_def
        list_all_length)

lemma wf_board_length: "wf_board b \<Longrightarrow> length b = 8"
  by (simp add: wf_board_def)

lemma get2_ok:
  "wf_board b \<Longrightarrow> 0 \<le> r \<Longrightarrow> r < 8 \<Longrightarrow> 0 \<le> c \<Longrightarrow> c < 8 \<Longrightarrow> get2 b r c = Inr (b ! nat r ! nat c)"
  using get2_on_board[of b r c] by (simp add: on_board_def)

text \<open>
  Whatever the outcome, the search only adds squares to the visited set, its own square
  among them, and leaves the board, the counts, the player and the winner alone.
\<close>

lemma clm_ext:
  "post (check_longer_move p r c er ec e s)
     (\<lambda>t. ext s t \<and> (r, c) \<in> memo t) (\<lambda>_ t. ext s t \<and> (r, c) \<in> memo t)"
proof (induct p r c er ec e s rule: check_longer_move.induct)
  case (1 piece init_row init_col end_row end_col eaten s)
  note IH = "1.hyps"[THEN post_conseq]
  show ?case
    apply (subst check_longer_move.simps)
    apply ((intro post_rules
           | (rule IH(1), assumption+) | (rule IH(2), assumption+)
           | (rule IH(3), assumption+) | (rule IH(4), assumption+)
           | (auto simp: ext_def; fail))+)
    done
qed

text \<open>The squares a search visits lie where its piece kind can get to by jumps.\<close>

lemma clm_reach:
  "post (check_longer_move p r c er ec e s)
     (\<lambda>t. memo t \<subseteq> memo s \<union> reach p r c) (\<lambda>_ t. memo t \<subseteq> memo s \<union> reach p r c)"
proof (induct p r c er ec e s rule: check_longer_move.induct)
  case (1 piece init_row init_col end_row end_col eaten s)
  note IH = "1.hyps"[THEN post_conseq]
  show ?case
    apply (subst check_longer_move.simps)
    apply ((intro post_rules
           | (rule IH(1), assumption+) | (rule IH(2), assumption+)
           | (rule IH(3), assumption+) | (rule IH(4), assumption+)
           | (auto simp: reach_def up_cone_def down_cone_def split: cell.splits; fail))+)
    done
qed

text \<open>
  On an 8 by 8 board and from a square of the board the search raises nothing, and every
  square it visits is a square of the board.
\<close>

lemma clm_safe:
  "wf_board (board s) \<Longrightarrow> on_board r c \<Longrightarrow>
   post (check_longer_move p r c er ec e s)
     (\<lambda>_. False) (\<lambda>_ t. ext s t \<and> memo t \<subseteq> memo s \<union> squares)"
proof (induct p r c er ec e s rule: check_longer_move.induct)
  case (1 piece init_row init_col end_row end_col eaten s)
  note IH = "1.hyps"[THEN post_conseq]
  note wf = "1.prems"
  show ?case
    apply (subst check_longer_move.simps)
    apply (insert wf)
    apply ((intro post_rules
           | (rule IH(1), assumption+) | (rule IH(2), assumption+)
           | (rule IH(3), assumption+) | (rule IH(4), assumption+)
           | (auto simp: ext_def on_board_def squares_def wf_board_length get2_ok; fail))+)
    done
qed

section \<open>Validation changes no game data (C9)\<close>

lemma post_pure:
  "(\<And>e. v = Inl e \<Longrightarrow> E t) \<Longrightarrow> (\<And>x. v = Inr x \<Longrightarrow> Q x t) \<Longrightarrow> post (v, t) E Q"
  by (cases v) (auto simp: post_def)

lemma post_snd: "post m I (\<lambda>_. I) \<Longrightarrow> I (snd m)"
  by (cases m) (auto simp: post_def split: sum.splits)

definition frame :: "checkers_logic \<Rightarrow> checkers_logic \<Rightarrow> bool" where
  "frame s t = (board t = board s \<and> green_pieces t = green_pieces s \<and>
     orange_pieces t = orange_pieces s \<and> current_player t = current_player s \<and> winner t = winner s)"

lemma validate_move_post_frame:
  "post (validate_move s ir ic er ec) (frame s) (\<lambda>_. frame s)"
  unfolding validate_move_def
  apply ((intro post_if post_let inv_bindE post_pure impI allI
         | (rule clm_ext[THEN post_conseq])
         | (auto simp: ext_def frame_def; fail))+)
  done

text \<open>
  C9. For every state and all four coordinates, the object \<^verbatim>\<open>validate_move\<close> leaves
  behind (whether it accepted, rejected or raised) has the board, \<^verbatim>\<open>green_pieces\<close>,
  \<^verbatim>\<open>orange_pieces\<close>, \<^verbatim>\<open>current_player\<close> and \<^verbatim>\<open>winner\<close> it had before the call. Only
  \<^verbatim>\<open>memo\<close> and \<^verbatim>\<open>eaten_pieces\<close> are not mentioned: they may change.
\<close>

theorem validate_move_frame:
  "board (snd (validate_move s ir ic er ec)) = board s \<and>
   green_pieces (snd (validate_move s ir ic er ec)) = green_pieces s \<and>
   orange_pieces (snd (validate_move s ir ic er ec)) = orange_pieces s \<and>
   current_player (snd (validate_move s ir ic er ec)) = current_player s \<and>
   winner (snd (validate_move s ir ic er ec)) = winner s"
  using post_snd[OF validate_move_post_frame, of s ir ic er ec] by (simp add: frame_def)

theorem validate_move_frame_witness:
  "board (snd (validate_move init_game 2 1 4 3)) = board init_game \<and>
   green_pieces (snd (validate_move init_game 2 1 4 3)) = green_pieces init_game \<and>
   orange_pieces (snd (validate_move init_game 2 1 4 3)) = orange_pieces init_game \<and>
   current_player (snd (validate_move init_game 2 1 4 3)) = current_player init_game \<and>
   winner (snd (validate_move init_game 2 1 4 3)) = winner init_game"
  by (rule validate_move_frame)

section \<open>Concrete positions\<close>

text \<open>
  One round of \<^verbatim>\<open>CheckersUI.move\<close> for a request the user typed: the piece has to
  pass \<^verbatim>\<open>check_valid_piece\<close> and the move \<^verbatim>\<open>validate_move\<close>, then the move is
  performed and the player changes unless there is a winner. \<open>None\<close> stands for a
  request the interface answers by asking again (or for an exception).
\<close>

definition move :: "checkers_logic \<Rightarrow> int \<Rightarrow> int \<Rightarrow> int \<Rightarrow> int \<Rightarrow> checkers_logic option" where
  "move s init_row init_col end_row end_col =
     (case check_valid_piece s init_row init_col of
        Inr True \<Rightarrow>
          (case validate_move s init_row init_col end_row end_col of
             (Inr (True, error), s) \<Rightarrow>
               (case perform_move s init_row init_col end_row end_col of
                  (Inr _, s) \<Rightarrow> Some (if winner s = None then change_player s else s)
                | (Inl _, _) \<Rightarrow> None)
           | _ \<Rightarrow> None)
      | _ \<Rightarrow> None)"

text \<open>The number of cells of the board that hold one of the given kinds.\<close>

definition count_cells :: "cell list \<Rightarrow> cell list list \<Rightarrow> int" where
  "count_cells kinds b = int (length (filter (\<lambda>c. List.member kinds c) (concat b)))"

text \<open>
  The position after Green played (2,1) to (3,2) and Orange (5,2) to (4,3) from the start:
  the green man on (3,2) faces the orange man on (4,3), behind which (5,4) still holds
  an orange man.
\<close>

definition after_two_moves :: checkers_logic where
  "after_two_moves = \<lparr> board =
     [[EMPTY, GREEN_PIECE, EMPTY, GREEN_PIECE, EMPTY, GREEN_PIECE, EMPTY, GREEN_PIECE],
      [GREEN_PIECE, EMPTY, GREEN_PIECE, EMPTY, GREEN_PIECE, EMPTY, GREEN_PIECE, EMPTY],
      [EMPTY, EMPTY, EMPTY, GREEN_PIECE, EMPTY, GREEN_PIECE, EMPTY, GREEN_PIECE],
      [EMPTY, EMPTY, GREEN_PIECE, EMPTY, EMPTY, EMPTY, EMPTY, EMPTY],
      [EMPTY, EMPTY, EMPTY, ORANGE_PIECE, EMPTY, EMPTY, EMPTY, EMPTY],
      [ORANGE_PIECE, EMPTY, EMPTY, EMPTY, ORANGE_PIECE, EMPTY, ORANGE_PIECE, EMPTY],
      [EMPTY, ORANGE_PIECE, EMPTY, ORANGE_PIECE, EMPTY, ORANGE_PIECE, EMPTY, ORANGE_PIECE],
      [ORANGE_PIECE, EMPTY, ORANGE_PIECE, EMPTY, ORANGE_PIECE, EMPTY, ORANGE_PIECE, EMPTY]],
     green_pieces = 12, orange_pieces = 12, eaten_pieces = [],
     current_player = PLAYER_GREEN, winner = None, memo = {} \<rparr>"

text \<open>The starting position with the green man of (2,3) replaced by a green king on (4,3).\<close>

definition queen_state :: checkers_logic where
  "queen_state = init_game\<lparr>board :=
     [[EMPTY, GREEN_PIECE, EMPTY, GREEN_PIECE, EMPTY, GREEN_PIECE, EMPTY, GREEN_PIECE],
      [GREEN_PIECE, EMPTY, GREEN_PIECE, EMPTY, GREEN_PIECE, EMPTY, GREEN_PIECE, EMPTY],
      [EMPTY, GREEN_PIECE, EMPTY, EMPTY, EMPTY, GREEN_PIECE, EMPTY, GREEN_PIECE],
      [EMPTY, EMPTY, EMPTY, EMPTY, EMPTY, EMPTY, EMPTY, EMPTY],
      [EMPTY, EMPTY, EMPTY, GREEN_QUEEN, EMPTY, EMPTY, EMPTY, EMPTY],
      [ORANGE_PIECE, EMPTY, ORANGE_PIECE, EMPTY, ORANGE_PIECE, EMPTY, ORANGE_PIECE, EMPTY],
      [EMPTY, ORANGE_PIECE, EMPTY, ORANGE_PIECE, EMPTY, ORANGE_PIECE, EMPTY, ORANGE_PIECE],
      [ORANGE_PIECE, EMPTY, ORANGE_PIECE, EMPTY, ORANGE_PIECE, EMPTY, ORANGE_PIECE, EMPTY]]\<rparr>"

lemma after_two_moves_reached:
  "Option.bind (move init_game 2 1 3 2) (\<lambda>s. move s 5 2 4 3) = Some after_two_moves"
  by code_simp

lemma wf_init_game: "wf_board (board init_game)"
  by code_simp

lemma wf_after_two_moves: "wf_board (board after_two_moves)"
  by code_simp

lemma wf_queen_state: "wf_board (board queen_state)"
  by code_simp

section \<open>The piece counts after a capture (C1)\<close>

text \<open>
  C1 says that \<^verbatim>\<open>green_pieces\<close> and \<^verbatim>\<open>orange_pieces\<close> count the green and the orange
  cells of the board after every move \<^verbatim>\<open>validate_move\<close> accepted, when they did before.
  The code breaks this: \<^verbatim>\<open>check_longer_move\<close> never looks at the square a jump lands
  on, so a jump onto an occupied square is accepted, and \<^verbatim>\<open>perform_move\<close> overwrites the
  piece standing there without counting it. Two moves into a game (position
  \<open>after_two_moves\<close>, counts 12 and 12 matching the board) Green selects his man on
  (3,2) and jumps the orange man on (4,3), landing on the orange man on (5,4): the move is
  accepted and performed, \<^verbatim>\<open>orange_pieces\<close> becomes 11, and 10 orange men are left on the
  board.
\<close>

theorem capture_onto_piece_breaks_count:
  "Option.bind (move init_game 2 1 3 2) (\<lambda>s. move s 5 2 4 3) = Some after_two_moves \<and>
   green_pieces after_two_moves = count_cells [GREEN_PIECE, GREEN_QUEEN] (board after_two_moves) \<and>
   orange_pieces after_two_moves = count_cells [ORANGE_PIECE, ORANGE_QUEEN] (board after_two_moves) \<and>
   check_valid_piece after_two_moves 3 2 = Inr True \<and>
   get_piece after_two_moves 5 4 = Inr ORANGE_PIECE \<and>
   fst (validate_move after_two_moves 3 2 5 4) = Inr (True, '''') \<and>
   fst (perform_move (snd (validate_move after_two_moves 3 2 5 4)) 3 2 5 4) = Inr True \<and>
   orange_pieces (snd (perform_move (snd (validate_move after_two_moves 3 2 5 4)) 3 2 5 4)) = 11 \<and>
   count_cells [ORANGE_PIECE, ORANGE_QUEEN]
     (board (snd (perform_move (snd (validate_move after_two_moves 3 2 5 4)) 3 2 5 4))) = 10"
  by code_simp

theorem capture_onto_piece_breaks_count_witness:
  "orange_pieces (snd (perform_move (snd (validate_move after_two_moves 3 2 5 4)) 3 2 5 4)) \<noteq>
   count_cells [ORANGE_PIECE, ORANGE_QUEEN]
     (board (snd (perform_move (snd (validate_move after_two_moves 3 2 5 4)) 3 2 5 4)))"
  using capture_onto_piece_breaks_count by simp

section \<open>More on outcomes\<close>

lemma bindE_simps:
  "bindE (Inr x, s) f = f x s"
  "bindE (Inl e, s) f = (Inl e, s)"
  by (simp_all add: bindE_def)

lemma post_cases:
  "(\<And>e t. m = (Inl e, t) \<Longrightarrow> E t) \<Longrightarrow> (\<And>x t. m = (Inr x, t) \<Longrightarrow> Q x t) \<Longrightarrow> post m E Q"
  by (cases m) (auto simp: post_def split: sum.splits)

lemma post_InrD: "post m (\<lambda>_. False) Q \<Longrightarrow> \<exists>x t. m = (Inr x, t) \<and> Q x t"
  by (cases m) (auto simp: post_def split: sum.splits)

section \<open>Validation on the board: the verdicts (C7)\<close>

definition verdicts :: "(bool \<times> string) set" where
  "verdicts = {(True, ''''), (False, ''You have to move the piece''),
     (False, ''You have to move forward''),
     (False, ''You can not move there, there is already a piece''),
     (False, ''That move is not allowed'')}"

lemma validate_move_safe:
  assumes "wf_board (board s)" "on_board ir ic" "on_board er ec"
  shows "post (validate_move s ir ic er ec) (\<lambda>_. False)
           (\<lambda>x t. x \<in> verdicts \<and> (memo t = memo s \<or> memo t \<subseteq> squares))"
  unfolding validate_move_def
  apply (insert assms)
  apply ((intro post_if post_let post_bindE post_pure impI allI
         | (rule clm_safe[THEN post_conseq])
         | (auto simp: verdicts_def on_board_def get2_ok get_piece_def check_basic_move_def
              check_wrong_direction_def ext_def; fail))+)
  done

text \<open>
  C7 as stated ("for every input, \<^verbatim>\<open>validate_move\<close> returns and never raises") is false:
  the code does not test its coordinates, and a row index of 8 makes the first subscript
  of \<^verbatim>\<open>get_piece\<close> raise \<^verbatim>\<open>IndexError\<close>.
\<close>

theorem validate_move_raises_counterexample:
  "fst (validate_move init_game 8 0 7 1) = Inl IndexError"
  by code_simp

text \<open>
  C7, amended. On the 8 by 8 board, for all four coordinates within 0..7,
  \<^verbatim>\<open>validate_move\<close> returns (it does not raise), and what it returns is the pair
  \<open>(True, '''')\<close> or the pair of \<open>False\<close> and one of the four messages of the code.
\<close>

theorem validate_move_returns:
  assumes "wf_board (board s)" "on_board ir ic" "on_board er ec"
  shows "fst (validate_move s ir ic er ec) \<in>
           {Inr (True, ''''), Inr (False, ''You have to move the piece''),
            Inr (False, ''You have to move forward''),
            Inr (False, ''You can not move there, there is already a piece''),
            Inr (False, ''That move is not allowed'')}"
proof -
  from post_InrD[OF validate_move_safe[OF assms]] obtain x t where
    "validate_move s ir ic er ec = (Inr x, t)" and "x \<in> verdicts"
    by blast
  then show ?thesis by (simp add: verdicts_def)
qed

theorem validate_move_returns_witness:
  "wf_board (board after_two_moves) \<and> on_board 3 2 \<and> on_board 5 4 \<and>
   fst (validate_move after_two_moves 3 2 5 4) \<in>
           {Inr (True, ''''), Inr (False, ''You have to move the piece''),
            Inr (False, ''You have to move forward''),
            Inr (False, ''You can not move there, there is already a piece''),
            Inr (False, ''That move is not allowed'')}"
proof -
  have a: "on_board 3 2" and b: "on_board 5 4"
    by (simp_all add: on_board_def)
  show ?thesis
    by (intro conjI) (rule wf_after_two_moves a b validate_move_returns[OF wf_after_two_moves a b])+
qed

section \<open>The capture search terminates (C8)\<close>

lemma card_squares: "card squares = 64"
  by (simp add: squares_def)

text \<open>
  C8. \<open>check_longer_move\<close> is a total function: its recursion was shown to terminate
  for every argument, by the number of squares near the board that are not yet in the
  visited set, which every call that goes past the visited-set check makes smaller.
  On the 8 by 8 board and from a start square within 0..7, for every piece kind, target
  and accumulator, the call returns (it raises nothing); it returns \<open>None\<close> with the object
  untouched when its square is already in the visited set, and otherwise its square is in
  the visited set afterwards, the set has only grown, and what it gained are squares of
  the board, at most 64 of them.
\<close>

theorem check_longer_move_terminates:
  assumes "wf_board (board s)" "on_board ir ic"
  shows "\<exists>v t. check_longer_move p ir ic er ec e s = (Inr v, t) \<and>
           (if (ir, ic) \<in> memo s then v = None \<and> t = s
            else (ir, ic) \<in> memo t \<and> memo s \<subseteq> memo t \<and> memo t - memo s \<subseteq> squares \<and>
                 card (memo t - memo s) \<le> 64)"
proof -
  from post_InrD[OF clm_safe[OF assms]] obtain v t where
    r: "check_longer_move p ir ic er ec e s = (Inr v, t)" and
    m: "ext s t" "memo t \<subseteq> memo s \<union> squares"
    by blast
  have i: "(ir, ic) \<in> memo t"
    using clm_ext[of p ir ic er ec e s] r by (simp add: post_def)
  have sub: "memo t - memo s \<subseteq> squares"
    using m(2) by auto
  have "finite squares" by (simp add: squares_def)
  then have "card (memo t - memo s) \<le> card squares"
    using sub by (rule card_mono)
  then have c: "card (memo t - memo s) \<le> 64"
    by (simp add: card_squares)
  show ?thesis
  proof (cases "(ir, ic) \<in> memo s")
    case True
    then have "check_longer_move p ir ic er ec e s = (Inr None, s)"
      by (subst check_longer_move.simps) simp
    with True show ?thesis by simp
  next
    case False
    with r i m(1) sub c show ?thesis by (simp add: ext_def)
  qed
qed

theorem check_longer_move_terminates_witness:
  "wf_board (board queen_state) \<and> on_board 4 3 \<and>
   (\<exists>v t. check_longer_move GREEN_QUEEN 4 3 6 5 [] queen_state = (Inr v, t) \<and>
           (if (4, 3) \<in> memo queen_state then v = None \<and> t = queen_state
            else (4, 3) \<in> memo t \<and> memo queen_state \<subseteq> memo t \<and>
                 memo t - memo queen_state \<subseteq> squares \<and>
                 card (memo t - memo queen_state) \<le> 64))"
proof -
  have a: "on_board 4 3"
    by (simp add: on_board_def)
  show ?thesis
    by (intro conjI) (rule wf_queen_state a check_longer_move_terminates[OF wf_queen_state a])+
qed

section \<open>A position with one man a side\<close>

text \<open>
  The green man on (3,2) in front of the orange man on (4,3), Green to play.
\<close>

definition endgame :: checkers_logic where
  "endgame = \<lparr> board =
     [[EMPTY, EMPTY, EMPTY, EMPTY, EMPTY, EMPTY, EMPTY, EMPTY],
      [EMPTY, EMPTY, EMPTY, EMPTY, EMPTY, EMPTY, EMPTY, EMPTY],
      [EMPTY, EMPTY, EMPTY, EMPTY, EMPTY, EMPTY, EMPTY, EMPTY],
      [EMPTY, EMPTY, GREEN_PIECE, EMPTY, EMPTY, EMPTY, EMPTY, EMPTY],
      [EMPTY, EMPTY, EMPTY, ORANGE_PIECE, EMPTY, EMPTY, EMPTY, EMPTY],
      [EMPTY, EMPTY, EMPTY, EMPTY, EMPTY, EMPTY, EMPTY, EMPTY],
      [EMPTY, EMPTY, EMPTY, EMPTY, EMPTY, EMPTY, EMPTY, EMPTY],
      [EMPTY, EMPTY, EMPTY, EMPTY, EMPTY, EMPTY, EMPTY, EMPTY]],
     green_pieces = 1, orange_pieces = 1, eaten_pieces = [],
     current_player = PLAYER_GREEN, winner = None, memo = {} \<rparr>"

lemma wf_endgame: "wf_board (board endgame)"
  by code_simp

section \<open>The capture search, one direction at a time\<close>

text \<open>
  Direction eligibility as the specification words it: a green man goes up the rows
  (\<open>dr = 1\<close>), an orange man down (\<open>dr = - 1\<close>), a king both ways.
\<close>

fun may_extend :: "cell \<Rightarrow> int \<Rightarrow> bool" where
  "may_extend GREEN_PIECE dr = (dr = 1)"
| "may_extend ORANGE_PIECE dr = (dr = - 1)"
| "may_extend GREEN_QUEEN dr = True"
| "may_extend ORANGE_QUEEN dr = True"
| "may_extend EMPTY dr = False"

text \<open>
  The four blocks of \<^verbatim>\<open>check_longer_move\<close> differ in the direction \<open>(dr, dc)\<close> only:
  \<open>jump\<close> is one block, with the test on the piece kind and the row as \<open>enabled\<close>, and
  \<open>col_guard\<close> its test on the column. \<open>clm_flat\<close> shows that \<^verbatim>\<open>check_longer_move\<close>, as
  translated from the source above, is the sequence of the four blocks, where the blocks of
  direction \<open>dr\<close> are enabled when \<open>may_extend\<close> holds and the landing row is on the board.
\<close>

definition col_guard :: "checkers_logic \<Rightarrow> int \<Rightarrow> int \<Rightarrow> bool" where
  "col_guard s c dc = (if dc = 1 then c \<le> int (length (board s)) - 3 else 2 \<le> c)"

definition jump ::
  "bool \<Rightarrow> cell \<Rightarrow> int \<Rightarrow> int \<Rightarrow> int \<Rightarrow> int \<Rightarrow> int \<Rightarrow> int \<Rightarrow> (int \<times> int) list \<Rightarrow> checkers_logic
     \<Rightarrow> pybool outcome"
where
  "jump enabled p r c dr dc er ec e s =
     (if enabled \<and> col_guard s c dc then
        bindE (get2 (board s) (r + dr) (c + dc), s)
          (\<lambda>over s.
             if check_opposite (current_player s) over then
               check_longer_move p (r + 2 * dr) (c + 2 * dc) er ec (e @ [(r + dr, c + dc)]) s
             else (Inr (Some False), s))
      else (Inr (Some False), s))"

lemma bindE_assoc: "bindE (bindE m f) g = bindE m (\<lambda>x s. bindE (f x s) g)"
  by (auto simp: bindE_def split: prod.splits sum.splits)

lemma clm_flat:
  "check_longer_move p r c er ec e s =
   (if (r, c) \<in> memo s then (Inr None, s)
    else
      let s1 = s\<lparr>memo := insert (r, c) (memo s)\<rparr>;
          up = (may_extend p 1 \<and> r \<le> int (length (board s1)) - 3);
          down = (may_extend p (- 1) \<and> 2 \<le> r)
      in
      if r = er \<and> c = ec then (Inr (Some True), s1\<lparr>eaten_pieces := e\<rparr>)
      else
        bindE (jump up p r c 1 (- 1) er ec e s1) (\<lambda>top_right s.
        bindE (jump up p r c 1 1 er ec e s) (\<lambda>top_left s.
        bindE (jump down p r c (- 1) 1 er ec e s) (\<lambda>bottom_right s.
        bindE (jump down p r c (- 1) (- 1) er ec e s) (\<lambda>bottom_left s.
          (Inr (py_or (py_or (py_or top_right top_left) bottom_right) bottom_left), s))))))"
proof -
  have up: "may_extend p 1 = (p = GREEN_PIECE \<or> p = GREEN_QUEEN \<or> p = ORANGE_QUEEN)"
    and down: "may_extend p (- 1) = (p = ORANGE_PIECE \<or> p = GREEN_QUEEN \<or> p = ORANGE_QUEEN)"
    by (cases p; simp)+
  show ?thesis
    apply (subst check_longer_move.simps)
    apply (cases "may_extend p 1"; cases "r \<le> int (length (board s)) - 3";
           cases "may_extend p (- 1)"; cases "2 \<le> r")
    apply (simp_all add: Let_def jump_def col_guard_def bindE_assoc bindE_simps up down
                    cong: if_cong)
    done
qed

lemma post_conj:
  "post m E Q \<Longrightarrow> post m E' Q' \<Longrightarrow> post m (\<lambda>t. E t \<and> E' t) (\<lambda>x t. Q x t \<and> Q' x t)"
  by (cases m) (auto simp: post_def split: sum.splits)

lemma bindE_InrD:
  "bindE m f = (Inr v, t) \<Longrightarrow> \<exists>x u. m = (Inr x, u) \<and> f x u = (Inr v, t)"
  by (cases m) (auto simp: bindE_def split: sum.splits)

lemma post_InrD2: "post m E Q \<Longrightarrow> m = (Inr v, t) \<Longrightarrow> Q v t"
  by (simp add: post_def)

lemma jump_ext:
  "post (jump en p r c dr dc er ec e s) (ext s) (\<lambda>_. ext s)"
  unfolding jump_def
  apply ((intro post_rules
         | (rule clm_ext[THEN post_conseq])
         | (auto simp: ext_def; fail))+)
  done

lemma jump_visits:
  assumes "en" and "col_guard s c dc"
    and "get2 (board s) (r + dr) (c + dc) = Inr x" and "check_opposite (current_player s) x"
  shows "post (jump en p r c dr dc er ec e s) (\<lambda>_. True)
           (\<lambda>_ t. (r + 2 * dr, c + 2 * dc) \<in> memo t)"
proof -
  have "jump en p r c dr dc er ec e s =
          check_longer_move p (r + 2 * dr) (c + 2 * dc) er ec (e @ [(r + dr, c + dc)]) s"
    using assms by (simp add: jump_def bindE_simps)
  then show ?thesis
    by (simp only:) (rule clm_ext[THEN post_conseq]; simp)
qed

lemma jump_safe:
  assumes "wf_board (board s)" and "on_board r c"
    and "dr = 1 \<or> dr = - 1" and "dc = 1 \<or> dc = - 1"
    and "en \<Longrightarrow> on_board (r + 2 * dr) c"
  shows "post (jump en p r c dr dc er ec e s) (\<lambda>_. False)
           (\<lambda>_ t. ext s t \<and> memo t \<subseteq> memo s \<union> squares \<and>
                  memo t \<subseteq> memo s \<union> reach p (r + 2 * dr) (c + 2 * dc))"
  unfolding jump_def
  apply (insert assms)
  apply ((intro post_if post_bindE post_pure impI allI
         | (rule post_conj[OF clm_safe clm_reach, THEN post_conseq])
         | (auto simp: ext_def on_board_def wf_board_length get2_ok col_guard_def split: if_splits; fail))+)
  done

lemma jump_step:
  assumes "jump en p r c dr dc er ec e s = (Inr v, t)"
  shows "ext s t"
  using jump_ext[of en p r c dr dc er ec e s] assms by (simp add: post_def)

lemma jump_lands:
  assumes "jump en p r c dr dc er ec e s' = (Inr v, t)"
    and "ext s s'" and "en" and "col_guard s c dc"
    and "get2 (board s) (r + dr) (c + dc) = Inr x" and "check_opposite (current_player s) x"
  shows "(r + 2 * dr, c + 2 * dc) \<in> memo t"
proof -
  have "col_guard s' c dc" "get2 (board s') (r + dr) (c + dc) = Inr x"
    "check_opposite (current_player s') x"
    using assms(2,4,5,6) by (simp_all add: ext_def col_guard_def)
  from jump_visits[OF assms(3) this, of p er ec e] assms(1) show ?thesis
    by (simp add: post_def)
qed

lemma clm_explores:
  assumes run: "check_longer_move p r c er ec e s = (Inr v, t)"
    and fresh: "(r, c) \<notin> memo s" and goal: "\<not> (r = er \<and> c = ec)"
    and dir: "may_extend p dr" "dr = 1 \<or> dr = - 1" "dc = 1 \<or> dc = - 1"
    and row: "0 \<le> r + 2 * dr" "r + 2 * dr < int (length (board s))"
    and col: "0 \<le> c + 2 * dc" "c + 2 * dc < int (length (board s))"
    and over: "get2 (board s) (r + dr) (c + dc) = Inr x" "check_opposite (current_player s) x"
  shows "(r + 2 * dr, c + 2 * dc) \<in> memo t"
proof -
  define s1 where "s1 = s\<lparr>memo := insert (r, c) (memo s)\<rparr>"
  define up where "up = (may_extend p 1 \<and> r \<le> int (length (board s1)) - 3)"
  define down where "down = (may_extend p (- 1) \<and> 2 \<le> r)"
  have e0: "ext s s1" by (simp add: s1_def ext_def subset_insertI)
  have "bindE (jump up p r c 1 (- 1) er ec e s1) (\<lambda>top_right s.
          bindE (jump up p r c 1 1 er ec e s) (\<lambda>top_left s.
          bindE (jump down p r c (- 1) 1 er ec e s) (\<lambda>bottom_right s.
          bindE (jump down p r c (- 1) (- 1) er ec e s) (\<lambda>bottom_left s.
            (Inr (py_or (py_or (py_or top_right top_left) bottom_right) bottom_left), s)))))
        = (Inr v, t)"
    using run fresh goal
    by (subst (asm) clm_flat) (simp add: Let_def s1_def up_def down_def)
  then obtain a t1 b t2 c' t3 d t4 where
    j1: "jump up p r c 1 (- 1) er ec e s1 = (Inr a, t1)" and
    j2: "jump up p r c 1 1 er ec e t1 = (Inr b, t2)" and
    j3: "jump down p r c (- 1) 1 er ec e t2 = (Inr c', t3)" and
    j4: "jump down p r c (- 1) (- 1) er ec e t3 = (Inr d, t4)" and
    t: "t = t4"
    by (auto dest!: bindE_InrD)
  note e1 = jump_step[OF j1] and e2 = jump_step[OF j2] and e3 = jump_step[OF j3]
    and e4 = jump_step[OF j4]
  have s1: "ext s s1" by (rule e0)
  have s2: "ext s t1" by (rule ext_trans[OF s1 e1])
  have s3: "ext s t2" by (rule ext_trans[OF s2 e2])
  have s4: "ext s t3" by (rule ext_trans[OF s3 e3])
  have len: "length (board s1) = length (board s)" by (simp add: s1_def)
  have cg: "col_guard s c dc"
    using dir(3) col by (auto simp: col_guard_def)
  have m2: "memo t1 \<subseteq> memo t" and m3: "memo t2 \<subseteq> memo t" and m4: "memo t3 \<subseteq> memo t"
    using e2 e3 e4 t by (auto simp: ext_def)
  consider (a) "dr = 1" "dc = - 1" | (b) "dr = 1" "dc = 1"
    | (c) "dr = - 1" "dc = 1" | (d) "dr = - 1" "dc = - 1"
    using dir(2,3) by blast
  then show ?thesis
  proof cases
    case a
    have en: up using dir(1) row a by (simp add: up_def len)
    from jump_lands[OF j1 s1 en] cg over a have "(r + 2 * dr, c + 2 * dc) \<in> memo t1" by simp
    then show ?thesis using m2 by blast
  next
    case b
    have en: up using dir(1) row b by (simp add: up_def len)
    from jump_lands[OF j2 s2 en] cg over b have "(r + 2 * dr, c + 2 * dc) \<in> memo t2" by simp
    then show ?thesis using m3 by blast
  next
    case c
    have en: down using dir(1) row c by (simp add: down_def)
    from jump_lands[OF j3 s3 en] cg over c have "(r + 2 * dr, c + 2 * dc) \<in> memo t3" by simp
    then show ?thesis using m4 by blast
  next
    case d
    have en: down using dir(1) row d by (simp add: down_def)
    from jump_lands[OF j4 s4 en] cg over d have "(r + 2 * dr, c + 2 * dc) \<in> memo t4" by simp
    then show ?thesis using t by blast
  qed
qed

section \<open>Direction eligibility by piece kind (C5)\<close>

text \<open>
  A green king on (4,3) between an orange man on (3,2), behind it, and one on (5,4), in
  front of it; Green to play.
\<close>

definition king_position :: checkers_logic where
  "king_position = \<lparr> board =
     [[EMPTY, EMPTY, EMPTY, EMPTY, EMPTY, EMPTY, EMPTY, EMPTY],
      [EMPTY, EMPTY, EMPTY, EMPTY, EMPTY, EMPTY, EMPTY, EMPTY],
      [EMPTY, EMPTY, EMPTY, EMPTY, EMPTY, EMPTY, EMPTY, EMPTY],
      [EMPTY, EMPTY, ORANGE_PIECE, EMPTY, EMPTY, EMPTY, EMPTY, EMPTY],
      [EMPTY, EMPTY, EMPTY, GREEN_QUEEN, EMPTY, EMPTY, EMPTY, EMPTY],
      [EMPTY, EMPTY, EMPTY, EMPTY, ORANGE_PIECE, EMPTY, EMPTY, EMPTY],
      [EMPTY, EMPTY, EMPTY, EMPTY, EMPTY, EMPTY, EMPTY, EMPTY],
      [EMPTY, EMPTY, EMPTY, EMPTY, EMPTY, EMPTY, EMPTY, EMPTY]],
     green_pieces = 1, orange_pieces = 2, eaten_pieces = [],
     current_player = PLAYER_GREEN, winner = None, memo = {} \<rparr>"

text \<open>
  C5. Let a call of \<^verbatim>\<open>check_longer_move\<close> for the piece kind \<open>p\<close> from the square
  \<open>(r, c)\<close> return. A kind that may not extend up the rows (the orange man) added no
  square above row \<open>r\<close> to the visited set, and a kind that may not extend down the rows
  (the green man) none below row \<open>r\<close>. And in each of the four diagonal directions
  \<open>(dr, dc)\<close> in which the kind may extend (two for a man, all four for a king) the chain
  was extended: when the call started on an unvisited square other than the target, the
  square jumped over holds a piece of the opponent and the landing square
  \<open>(r + 2 dr, c + 2 dc)\<close> has its coordinates on the board, the search went on to the
  landing square.
\<close>

theorem capture_directions:
  assumes "check_longer_move p r c er ec e s = (Inr v, t)"
  shows "(\<not> may_extend p 1 \<longrightarrow> memo t \<subseteq> memo s \<union> {(r', c'). r' \<le> r}) \<and>
         (\<not> may_extend p (- 1) \<longrightarrow> memo t \<subseteq> memo s \<union> {(r', c'). r \<le> r'}) \<and>
         ((r, c) \<notin> memo s \<and> \<not> (r = er \<and> c = ec) \<and>
          may_extend p dr \<and> (dr = 1 \<or> dr = - 1) \<and> (dc = 1 \<or> dc = - 1) \<and>
          0 \<le> r + 2 * dr \<and> r + 2 * dr < int (length (board s)) \<and>
          0 \<le> c + 2 * dc \<and> c + 2 * dc < int (length (board s)) \<and>
          get2 (board s) (r + dr) (c + dc) = Inr x \<and> check_opposite (current_player s) x
          \<longrightarrow> (r + 2 * dr, c + 2 * dc) \<in> memo t)"
proof -
  have cone: "memo t \<subseteq> memo s \<union> reach p r c"
    using clm_reach[of p r c er ec e s] assms by (simp add: post_def)
  have "\<not> may_extend p 1 \<longrightarrow> memo t \<subseteq> memo s \<union> {(r', c'). r' \<le> r}"
    using cone by (cases p) (auto simp: reach_def down_cone_def)
  moreover have "\<not> may_extend p (- 1) \<longrightarrow> memo t \<subseteq> memo s \<union> {(r', c'). r \<le> r'}"
    using cone by (cases p) (auto simp: reach_def up_cone_def)
  moreover have "(r, c) \<notin> memo s \<and> \<not> (r = er \<and> c = ec) \<and>
          may_extend p dr \<and> (dr = 1 \<or> dr = - 1) \<and> (dc = 1 \<or> dc = - 1) \<and>
          0 \<le> r + 2 * dr \<and> r + 2 * dr < int (length (board s)) \<and>
          0 \<le> c + 2 * dc \<and> c + 2 * dc < int (length (board s)) \<and>
          get2 (board s) (r + dr) (c + dc) = Inr x \<and> check_opposite (current_player s) x
          \<longrightarrow> (r + 2 * dr, c + 2 * dc) \<in> memo t"
    using clm_explores[OF assms, of dr dc x] by blast
  ultimately show ?thesis by blast
qed

theorem capture_directions_witness:
  "fst (check_longer_move GREEN_PIECE 3 2 7 7 [] endgame) = Inr (Some False) \<and>
   memo (snd (check_longer_move GREEN_PIECE 3 2 7 7 [] endgame))
     \<subseteq> memo endgame \<union> {(r', c'). 3 \<le> r'} \<and>
   (5, 4) \<in> memo (snd (check_longer_move GREEN_PIECE 3 2 7 7 [] endgame)) \<and>
   fst (check_longer_move GREEN_QUEEN 4 3 0 0 [] king_position) = Inr (Some False) \<and>
   (2, 1) \<in> memo (snd (check_longer_move GREEN_QUEEN 4 3 0 0 [] king_position)) \<and>
   (6, 5) \<in> memo (snd (check_longer_move GREEN_QUEEN 4 3 0 0 [] king_position))"
proof -
  have f1: "fst (check_longer_move GREEN_PIECE 3 2 7 7 [] endgame) = Inr (Some False)"
    by code_simp
  then have r1: "check_longer_move GREEN_PIECE 3 2 7 7 [] endgame =
      (Inr (Some False), snd (check_longer_move GREEN_PIECE 3 2 7 7 [] endgame))"
    by (simp add: prod_eq_iff)
  have f2: "fst (check_longer_move GREEN_QUEEN 4 3 0 0 [] king_position) = Inr (Some False)"
    by code_simp
  then have r2: "check_longer_move GREEN_QUEEN 4 3 0 0 [] king_position =
      (Inr (Some False), snd (check_longer_move GREEN_QUEEN 4 3 0 0 [] king_position))"
    by (simp add: prod_eq_iff)
  have m1: "memo endgame = {}" and l1: "length (board endgame) = 8"
    and p1: "current_player endgame = PLAYER_GREEN"
    and g1: "get2 (board endgame) 4 3 = Inr ORANGE_PIECE"
    by code_simp+
  have m2: "memo king_position = {}" and l2: "length (board king_position) = 8"
    and p2: "current_player king_position = PLAYER_GREEN"
    and g2: "get2 (board king_position) 3 2 = Inr ORANGE_PIECE"
    and g3: "get2 (board king_position) 5 4 = Inr ORANGE_PIECE"
    by code_simp+
  have o: "check_opposite PLAYER_GREEN ORANGE_PIECE"
    by code_simp
  show ?thesis
    using f1 f2 capture_directions[OF r1, of 1 1 ORANGE_PIECE]
      capture_directions[OF r2, of "- 1" "- 1" ORANGE_PIECE]
      capture_directions[OF r2, of 1 1 ORANGE_PIECE]
    by (simp add: m1 l1 p1 g1 m2 l2 p2 g2 g3 o)
qed

section \<open>A single capture (C4)\<close>

text \<open>
  \<open>upd b r c v\<close> is the board after \<^verbatim>\<open>board[r][c] = v\<close> for a square of the board.
\<close>

definition upd :: "cell list list \<Rightarrow> int \<Rightarrow> int \<Rightarrow> cell \<Rightarrow> cell list list" where
  "upd b r c v = b[nat r := (b ! nat r)[nat c := v]]"

lemma set2_upd:
  "wf_board b \<Longrightarrow> on_board r c \<Longrightarrow> set2 b r c v = Inr (upd b r c v)"
  by (auto simp: wf_board_def on_board_def set2_def upd_def py_getitem_def py_setitem_def
        py_valid_def py_norm_def list_all_length)

lemma wf_upd: "wf_board b \<Longrightarrow> wf_board (upd b r c v)"
  by (cases "nat r < length b")
     (auto simp: wf_board_def upd_def list_all_length nth_list_update)

lemma get2_upd:
  "wf_board b \<Longrightarrow> on_board r c \<Longrightarrow> on_board r' c' \<Longrightarrow>
   get2 (upd b r c v) r' c' = (if r' = r \<and> c' = c then Inr v else get2 b r' c')"
  by (auto simp: get2_on_board wf_upd)
     (auto simp: wf_board_def on_board_def upd_def list_all_length nth_list_update)

lemma check_opposite_green_orange: "check_opposite PLAYER_GREEN ORANGE_PIECE"
  by code_simp

lemma clm_single_capture:
  assumes wf: "wf_board (board s)" and fresh: "memo s = {}"
    and pl: "current_player s = PLAYER_GREEN"
    and over: "get2 (board s) 4 3 = Inr ORANGE_PIECE"
  shows "\<exists>t. check_longer_move GREEN_PIECE 3 2 5 4 [] s = (Inr (Some True), t) \<and>
             board t = board s \<and> green_pieces t = green_pieces s \<and>
             orange_pieces t = orange_pieces s \<and> current_player t = current_player s \<and>
             eaten_pieces t = [(4, 3)]"
proof -
  define s1 where "s1 = s\<lparr>memo := insert (3, 2) (memo s)\<rparr>"
  have wf1: "wf_board (board s1)" and m1: "memo s1 = {(3, 2)}" and e1: "ext s s1"
    using wf fresh by (simp_all add: s1_def ext_def)
  have "post (jump True GREEN_PIECE 3 2 1 (- 1) 5 4 [] s1) (\<lambda>_. False)
          (\<lambda>_ t. ext s1 t \<and> memo t \<subseteq> memo s1 \<union> squares \<and>
                 memo t \<subseteq> memo s1 \<union> reach GREEN_PIECE (3 + 2 * 1) (2 + 2 * (- 1)))"
    by (rule jump_safe[OF wf1]) (simp_all add: on_board_def)
  from post_InrD[OF this] obtain tr t1 where
    j1: "jump True GREEN_PIECE 3 2 1 (- 1) 5 4 [] s1 = (Inr tr, t1)" and
    x1: "ext s1 t1" and r1: "memo t1 \<subseteq> memo s1 \<union> reach GREEN_PIECE (3 + 2 * 1) (2 + 2 * (- 1))"
    by blast
  have n1: "(5, 4) \<notin> memo t1"
    using r1 m1 by (auto simp: reach_def up_cone_def)
  have b1: "board t1 = board s" "current_player t1 = PLAYER_GREEN"
    using x1 e1 pl by (simp_all add: ext_def)
  define t2 where "t2 = t1\<lparr>memo := insert (5, 4) (memo t1), eaten_pieces := [(4, 3)]\<rparr>"
  have base: "check_longer_move GREEN_PIECE 5 4 5 4 [(4, 3)] t1 = (Inr (Some True), t2)"
    using n1 by (subst clm_flat) (simp add: Let_def t2_def)
  have j2: "jump True GREEN_PIECE 3 2 1 1 5 4 [] t1 = (Inr (Some True), t2)"
    using base wf over
    by (simp add: jump_def col_guard_def b1 wf_board_length bindE_simps
          check_opposite_green_orange)
  have res: "py_or (py_or (py_or tr (Some True)) (Some False)) (Some False) = Some True"
    by (simp add: py_or_def truthy_def)
  have nf: "(3, 2) \<notin> memo s" using fresh by simp
  have "check_longer_move GREEN_PIECE 3 2 5 4 [] s = (Inr (Some True), t2)"
    using nf wf j1 j2 res
    by (subst clm_flat)
       (simp add: Let_def s1_def[symmetric] wf_board_length[OF wf1] bindE_simps
          jump_def[of False])
  moreover have "board t2 = board s" "green_pieces t2 = green_pieces s"
    "orange_pieces t2 = orange_pieces s" "current_player t2 = current_player s"
    "eaten_pieces t2 = [(4, 3)]"
    using x1 e1 by (simp_all add: t2_def ext_def)
  ultimately show ?thesis by blast
qed

lemma validate_single_capture:
  assumes wf: "wf_board (board s)" and pl: "current_player s = PLAYER_GREEN"
    and man: "get_piece s 3 2 = Inr GREEN_PIECE" and over: "get_piece s 4 3 = Inr ORANGE_PIECE"
  shows "\<exists>t. validate_move s 3 2 5 4 = (Inr (True, ''''), t) \<and>
             board t = board s \<and> green_pieces t = green_pieces s \<and>
             orange_pieces t = orange_pieces s \<and> current_player t = current_player s \<and>
             eaten_pieces t = [(4, 3)]"
proof -
  define s0 where "s0 = s\<lparr>memo := {}\<rparr>"
  have "\<exists>t. check_longer_move GREEN_PIECE 3 2 5 4 [] s0 = (Inr (Some True), t) \<and>
             board t = board s0 \<and> green_pieces t = green_pieces s0 \<and>
             orange_pieces t = orange_pieces s0 \<and> current_player t = current_player s0 \<and>
             eaten_pieces t = [(4, 3)]"
    using wf pl over by (intro clm_single_capture) (simp_all add: s0_def get_piece_def)
  then obtain t where
    t: "check_longer_move GREEN_PIECE 3 2 5 4 [] s0 = (Inr (Some True), t)"
      "board t = board s0" "green_pieces t = green_pieces s0"
      "orange_pieces t = orange_pieces s0" "current_player t = current_player s0"
      "eaten_pieces t = [(4, 3)]"
    by blast
  have "validate_move s 3 2 5 4 = (Inr (True, ''''), t)"
    using man t(1)
    by (simp add: validate_move_def check_same_move_def check_wrong_direction_def
          get_piece_def Let_def bindE_simps s0_def[symmetric] truthy_def)
  then show ?thesis using t(2-) by (auto simp: s0_def)
qed

lemma perform_single_capture:
  assumes wf: "wf_board (board t)" and pl: "current_player t = PLAYER_GREEN"
    and man: "get2 (board t) 3 2 = Inr GREEN_PIECE" and pend: "eaten_pieces t = [(4, 3)]"
  shows "\<exists>u. perform_move t 3 2 5 4 = (Inr True, u) \<and>
             get_piece u 4 3 = Inr EMPTY \<and> get_piece u 3 2 = Inr EMPTY \<and>
             get_piece u 5 4 = Inr GREEN_PIECE \<and>
             orange_pieces u = orange_pieces t - 1 \<and> green_pieces u = green_pieces t \<and>
             eaten_pieces u = []"
proof -
  define b1 where "b1 = upd (board t) 5 4 GREEN_PIECE"
  define b2 where "b2 = upd b1 3 2 EMPTY"
  define b3 where "b3 = upd b2 4 3 EMPTY"
  have wf1: "wf_board b1" and wf2: "wf_board b2" and wf3: "wf_board b3"
    using wf by (simp_all add: b1_def b2_def b3_def wf_upd)
  have a1: "board_assign t 5 4 GREEN_PIECE = (Inr (), t\<lparr>board := b1\<rparr>)"
    using wf by (simp add: board_assign_def set2_upd on_board_def b1_def)
  have a2: "board_assign (t\<lparr>board := b1\<rparr>) 3 2 EMPTY = (Inr (), t\<lparr>board := b2\<rparr>)"
    using wf1 by (simp add: board_assign_def set2_upd on_board_def b2_def)
  have a3: "eat_pieces (t\<lparr>board := b2\<rparr>) =
              (Inr (), t\<lparr>board := b3, orange_pieces := orange_pieces t - 1, eaten_pieces := []\<rparr>)"
    using wf2 pl pend by (simp add: eat_pieces_def set2_upd on_board_def b3_def)
  have len: "length b3 = 8" using wf3 by (rule wf_board_length)
  define u where "u = check_end (t\<lparr>board := b3, orange_pieces := orange_pieces t - 1,
    eaten_pieces := []\<rparr>)"
  have pm: "perform_move t 3 2 5 4 = (Inr True, u)"
    using man a1 a2 a3 pl pend len
    by (simp add: perform_move_def bindE_simps check_piece_promotion_and_promote_def u_def)
  have bu: "board u = b3" "orange_pieces u = orange_pieces t - 1"
    "green_pieces u = green_pieces t" "eaten_pieces u = []"
    by (simp_all add: u_def check_end_def Let_def)
  have g1: "get2 b3 4 3 = Inr EMPTY"
    using wf2 by (simp add: b3_def get2_upd on_board_def)
  have g2: "get2 b3 3 2 = Inr EMPTY"
    using wf1 wf2 by (simp add: b3_def b2_def get2_upd on_board_def)
  have g3: "get2 b3 5 4 = Inr GREEN_PIECE"
    using wf wf1 wf2 by (simp add: b3_def b2_def b1_def get2_upd on_board_def)
  show ?thesis
    using pm bu g1 g2 g3 by (simp add: get_piece_def)
qed

text \<open>
  The position after Green played (2,1) to (3,2), Orange (5,2) to (4,3), Green (2,7) to
  (3,6) and Orange (5,4) to (4,5) from the start: the green man on (3,2) faces the orange
  man on (4,3), and (5,4) behind it is empty.
\<close>

definition capture_position :: checkers_logic where
  "capture_position = \<lparr> board =
     [[EMPTY, GREEN_PIECE, EMPTY, GREEN_PIECE, EMPTY, GREEN_PIECE, EMPTY, GREEN_PIECE],
      [GREEN_PIECE, EMPTY, GREEN_PIECE, EMPTY, GREEN_PIECE, EMPTY, GREEN_PIECE, EMPTY],
      [EMPTY, EMPTY, EMPTY, GREEN_PIECE, EMPTY, GREEN_PIECE, EMPTY, EMPTY],
      [EMPTY, EMPTY, GREEN_PIECE, EMPTY, EMPTY, EMPTY, GREEN_PIECE, EMPTY],
      [EMPTY, EMPTY, EMPTY, ORANGE_PIECE, EMPTY, ORANGE_PIECE, EMPTY, EMPTY],
      [ORANGE_PIECE, EMPTY, EMPTY, EMPTY, EMPTY, EMPTY, ORANGE_PIECE, EMPTY],
      [EMPTY, ORANGE_PIECE, EMPTY, ORANGE_PIECE, EMPTY, ORANGE_PIECE, EMPTY, ORANGE_PIECE],
      [ORANGE_PIECE, EMPTY, ORANGE_PIECE, EMPTY, ORANGE_PIECE, EMPTY, ORANGE_PIECE, EMPTY]],
     green_pieces = 12, orange_pieces = 12, eaten_pieces = [],
     current_player = PLAYER_GREEN, winner = None, memo = {} \<rparr>"

lemma capture_position_reached:
  "Option.bind (move after_two_moves 2 7 3 6) (\<lambda>s. move s 5 4 4 5) = Some capture_position"
  by code_simp

text \<open>
  C4. On an 8 by 8 board where Green is to play, a green man stands on (3,2), an orange
  man on (4,3) and (5,4) is empty, \<^verbatim>\<open>validate_move(3,2,5,4)\<close> returns valid (with the
  empty message) and leaves exactly (4,3) in the pending capture list; the
  \<^verbatim>\<open>perform_move(3,2,5,4)\<close> that follows returns, leaves (4,3) empty and
  \<^verbatim>\<open>orange_pieces\<close> one less than it was.
\<close>

theorem single_capture:
  assumes "wf_board (board s)" and "current_player s = PLAYER_GREEN"
    and "get_piece s 3 2 = Inr GREEN_PIECE" and "get_piece s 4 3 = Inr ORANGE_PIECE"
    and "get_piece s 5 4 = Inr EMPTY"
  shows "\<exists>t u. validate_move s 3 2 5 4 = (Inr (True, ''''), t) \<and>
               eaten_pieces t = [(4, 3)] \<and>
               perform_move t 3 2 5 4 = (Inr True, u) \<and>
               get_piece u 4 3 = Inr EMPTY \<and>
               orange_pieces u = orange_pieces s - 1"
proof -
  from validate_single_capture[OF assms(1-4)] obtain t where
    t: "validate_move s 3 2 5 4 = (Inr (True, ''''), t)" "board t = board s"
      "orange_pieces t = orange_pieces s" "current_player t = current_player s"
      "eaten_pieces t = [(4, 3)]"
    by blast
  have "\<exists>u. perform_move t 3 2 5 4 = (Inr True, u) \<and>
             get_piece u 4 3 = Inr EMPTY \<and> get_piece u 3 2 = Inr EMPTY \<and>
             get_piece u 5 4 = Inr GREEN_PIECE \<and>
             orange_pieces u = orange_pieces t - 1 \<and> green_pieces u = green_pieces t \<and>
             eaten_pieces u = []"
    using assms(1-3) t by (intro perform_single_capture) (simp_all add: get_piece_def)
  then show ?thesis using t by auto
qed

theorem single_capture_witness:
  "wf_board (board capture_position) \<and> current_player capture_position = PLAYER_GREEN \<and>
   get_piece capture_position 3 2 = Inr GREEN_PIECE \<and>
   get_piece capture_position 4 3 = Inr ORANGE_PIECE \<and>
   get_piece capture_position 5 4 = Inr EMPTY \<and>
   fst (validate_move capture_position 3 2 5 4) = Inr (True, '''') \<and>
   eaten_pieces (snd (validate_move capture_position 3 2 5 4)) = [(4, 3)] \<and>
   fst (perform_move (snd (validate_move capture_position 3 2 5 4)) 3 2 5 4) = Inr True \<and>
   get_piece (snd (perform_move (snd (validate_move capture_position 3 2 5 4)) 3 2 5 4)) 4 3
     = Inr EMPTY \<and>
   orange_pieces (snd (perform_move (snd (validate_move capture_position 3 2 5 4)) 3 2 5 4))
     = orange_pieces capture_position - 1"
proof -
  have h: "wf_board (board capture_position)" "current_player capture_position = PLAYER_GREEN"
    "get_piece capture_position 3 2 = Inr GREEN_PIECE"
    "get_piece capture_position 4 3 = Inr ORANGE_PIECE"
    "get_piece capture_position 5 4 = Inr EMPTY"
    by code_simp+
  from single_capture[OF h] obtain t u where
    "validate_move capture_position 3 2 5 4 = (Inr (True, ''''), t)"
    "eaten_pieces t = [(4, 3)]" "perform_move t 3 2 5 4 = (Inr True, u)"
    "get_piece u 4 3 = Inr EMPTY" "orange_pieces u = orange_pieces capture_position - 1"
    by blast
  then show ?thesis using h by simp
qed

section \<open>The game loop of the user interface\<close>

text \<open>
  \<^verbatim>\<open>CheckersUI.validate_input\<close> asks until the text typed matches \<^verbatim>\<open>^[0-7]$\<close>; a request
  is what the user typed for one pass of the loop of \<^verbatim>\<open>CheckersUI.move\<close>: the row and the
  column of the piece and the row and the column of the destination.
\<close>

type_synonym request = "int \<times> int \<times> int \<times> int"

definition validate_input :: "int \<Rightarrow> bool" where
  "validate_input n = (0 \<le> n \<and> n \<le> 7)"

text \<open>
  One pass of the loop of \<^verbatim>\<open>CheckersUI.move\<close>. A number \<^verbatim>\<open>validate_input\<close> refuses and a
  piece \<^verbatim>\<open>check_valid_piece\<close> refuses are asked again with nothing else called; a move
  \<^verbatim>\<open>validate_move\<close> refuses leaves the object as that call left it and the loop goes on
  (\<open>Refused\<close>); a move it accepts is performed, the player changes unless there is a
  winner, and \<^verbatim>\<open>CheckersUI.move\<close> returns (\<open>Performed\<close>). \<open>None\<close> is an exception, which
  nothing catches.
\<close>

datatype attempt_result = Refused checkers_logic | Performed checkers_logic

definition attempt :: "checkers_logic \<Rightarrow> request \<Rightarrow> attempt_result option" where
  "attempt s q =
     (case q of (init_row, init_col, end_row, end_col) \<Rightarrow>
        if \<not> (validate_input init_row \<and> validate_input init_col \<and>
               validate_input end_row \<and> validate_input end_col)
        then Some (Refused s)
        else
          (case check_valid_piece s init_row init_col of
             Inl e \<Rightarrow> None
           | Inr False \<Rightarrow> Some (Refused s)
           | Inr True \<Rightarrow>
               (case validate_move s init_row init_col end_row end_col of
                  (Inl e, s) \<Rightarrow> None
                | (Inr (False, error), s) \<Rightarrow> Some (Refused s)
                | (Inr (True, error), s) \<Rightarrow>
                    (case perform_move s init_row init_col end_row end_col of
                       (Inl e, s) \<Rightarrow> None
                     | (Inr _, s) \<Rightarrow>
                         Some (Performed (if winner s = None then change_player s else s))))))"

text \<open>
  The loop \<^verbatim>\<open>while not self.game.winner: self.move()\<close> of \<^verbatim>\<open>CheckersUI.play\<close> and the loop
  of \<^verbatim>\<open>CheckersUI.move\<close>, run on the requests the user typed: the result is the object
  when the game is over or the requests are used up (the program then waits for input).
  \<^verbatim>\<open>CheckersUI.play\<close> starts the loop from \<^verbatim>\<open>init_game\<close>.
\<close>

fun play :: "checkers_logic \<Rightarrow> request list \<Rightarrow> checkers_logic option"
  and ui_move :: "checkers_logic \<Rightarrow> request list \<Rightarrow> checkers_logic option"
where
  "play s qs = (if winner s \<noteq> None then Some s else ui_move s qs)"
| "ui_move s [] = Some s"
| "ui_move s (q # qs) =
     (case attempt s q of
        None \<Rightarrow> None
      | Some (Refused t) \<Rightarrow> ui_move t qs
      | Some (Performed t) \<Rightarrow> play t qs)"

declare play.simps [simp del]

section \<open>What the game loop maintains\<close>

text \<open>
  The results of a search that returned: from a visited square, on the target, or after
  its four jumps; and the results of a jump.
\<close>

lemma clm_cases [consumes 1, case_names seen found search]:
  assumes run: "check_longer_move p r c er ec e s = (Inr v, t)"
  obtains
    "(r, c) \<in> memo s" "v = None" "t = s"
  | "(r, c) \<notin> memo s" "r = er" "c = ec" "v = Some True"
    "t = s\<lparr>memo := insert (r, c) (memo s), eaten_pieces := e\<rparr>"
  | a t1 b t2 c' t3 d where
    "(r, c) \<notin> memo s" "\<not> (r = er \<and> c = ec)"
    "jump (may_extend p 1 \<and> r \<le> int (length (board s)) - 3) p r c 1 (- 1) er ec e
       (s\<lparr>memo := insert (r, c) (memo s)\<rparr>) = (Inr a, t1)"
    "jump (may_extend p 1 \<and> r \<le> int (length (board s)) - 3) p r c 1 1 er ec e t1 = (Inr b, t2)"
    "jump (may_extend p (- 1) \<and> 2 \<le> r) p r c (- 1) 1 er ec e t2 = (Inr c', t3)"
    "jump (may_extend p (- 1) \<and> 2 \<le> r) p r c (- 1) (- 1) er ec e t3 = (Inr d, t)"
    "v = py_or (py_or (py_or a b) c') d"
proof -
  define s1 where "s1 = s\<lparr>memo := insert (r, c) (memo s)\<rparr>"
  define up where "up = (may_extend p 1 \<and> r \<le> int (length (board s1)) - 3)"
  define down where "down = (may_extend p (- 1) \<and> 2 \<le> r)"
  have up: "up = (may_extend p 1 \<and> r \<le> int (length (board s)) - 3)"
    by (simp add: up_def s1_def)
  consider "(r, c) \<in> memo s" | "(r, c) \<notin> memo s" "r = er \<and> c = ec"
    | "(r, c) \<notin> memo s" "\<not> (r = er \<and> c = ec)"
    by blast
  then show ?thesis
  proof cases
    case 1
    have "v = None \<and> t = s"
      using run 1 by (subst (asm) clm_flat) simp
    with 1 that(1) show ?thesis by blast
  next
    case 2
    have "v = Some True \<and> t = s\<lparr>memo := insert (r, c) (memo s), eaten_pieces := e\<rparr>"
      using run 2 by (subst (asm) clm_flat) (simp add: Let_def)
    with 2 that(2) show ?thesis by blast
  next
    case 3
    have "bindE (jump up p r c 1 (- 1) er ec e s1) (\<lambda>top_right s.
            bindE (jump up p r c 1 1 er ec e s) (\<lambda>top_left s.
            bindE (jump down p r c (- 1) 1 er ec e s) (\<lambda>bottom_right s.
            bindE (jump down p r c (- 1) (- 1) er ec e s) (\<lambda>bottom_left s.
              (Inr (py_or (py_or (py_or top_right top_left) bottom_right) bottom_left), s)))))
          = (Inr v, t)"
      using run 3 by (subst (asm) clm_flat) (simp add: Let_def s1_def up_def down_def)
    then obtain a t1 b t2 c' t3 d t4 where
      j: "jump up p r c 1 (- 1) er ec e s1 = (Inr a, t1)"
        "jump up p r c 1 1 er ec e t1 = (Inr b, t2)"
        "jump down p r c (- 1) 1 er ec e t2 = (Inr c', t3)"
        "jump down p r c (- 1) (- 1) er ec e t3 = (Inr d, t4)"
        "v = py_or (py_or (py_or a b) c') d" "t = t4"
      by (auto dest!: bindE_InrD)
    show ?thesis
      by (rule that(3)[OF 3 j(1-4)[unfolded up down_def s1_def j(6)[symmetric]] j(5)])
  qed
qed

lemma jump_cases [consumes 1, case_names skip call]:
  assumes "jump en p r c dr dc er ec e u = (Inr x, t)"
  obtains
    "x = Some False" "t = u"
  | over where "get2 (board u) (r + dr) (c + dc) = Inr over"
    "check_longer_move p (r + 2 * dr) (c + 2 * dc) er ec (e @ [(r + dr, c + dc)]) u = (Inr x, t)"
proof -
  have "(x = Some False \<and> t = u) \<or>
        (\<exists>over. get2 (board u) (r + dr) (c + dc) = Inr over \<and>
           check_longer_move p (r + 2 * dr) (c + 2 * dc) er ec (e @ [(r + dr, c + dc)]) u
             = (Inr x, t))"
    using assms
    by (cases "get2 (board u) (r + dr) (c + dc)")
       (auto simp: jump_def bindE_simps split: if_splits)
  then show ?thesis using that by blast
qed

text \<open>
  Induction over the calls of the search: a property holds of every call when it holds of
  a call as soon as it holds of the calls made from it, which start two squares away in
  an object that has the same board and the square of the caller in its visited set.
\<close>

lemma clm_calls_induct [case_names call]:
  assumes step: "\<And>p r c er ec e s.
     (\<And>dr dc over u. (r, c) \<notin> memo s \<Longrightarrow> ext (s\<lparr>memo := insert (r, c) (memo s)\<rparr>) u \<Longrightarrow>
        get2 (board u) (r + dr) (c + dc) = Inr over \<Longrightarrow> dr = 1 \<or> dr = - 1 \<Longrightarrow> dc = 1 \<or> dc = - 1 \<Longrightarrow>
        P p (r + 2 * dr) (c + 2 * dc) er ec (e @ [(r + dr, c + dc)]) u)
     \<Longrightarrow> P p r c er ec e s"
  shows "P p r c er ec e s"
proof (induct "card (near (board s) - memo s)" arbitrary: p r c er ec e s rule: less_induct)
  case less
  show ?case
  proof (rule step)
    fix dr dc :: int and over u
    assume f: "(r, c) \<notin> memo s" and x: "ext (s\<lparr>memo := insert (r, c) (memo s)\<rparr>) u"
      and g: "get2 (board u) (r + dr) (c + dc) = Inr over"
      and d: "dr = 1 \<or> dr = - 1" "dc = 1 \<or> dc = - 1"
    have b: "board u = board s" and m: "insert (r, c) (memo s) \<subseteq> memo u"
      using x by (auto simp: ext_def)
    have "\<bar>(r + dr) - r\<bar> = 1" "\<bar>(c + dc) - c\<bar> = 1"
      using d by auto
    from get2_near[OF g this] have "(r, c) \<in> near (board s)"
      by (simp add: b)
    with f m have "near (board s) - memo u \<subset> near (board s) - memo s"
      by auto
    then have "card (near (board s) - memo u) < card (near (board s) - memo s)"
      by (intro psubset_card_mono) (auto simp: finite_near)
    then have "card (near (board u) - memo u) < card (near (board s) - memo s)"
      by (simp add: b)
    then show "P p (r + 2 * dr) (c + 2 * dc) er ec (e @ [(r + dr, c + dc)]) u"
      by (rule less)
  qed
qed

text \<open>
  A search that changed the pending capture list found the target: it returned \<open>True\<close>.
\<close>

lemma truthy_py_or: "truthy (py_or a b) = (truthy a \<or> truthy b)"
  by (auto simp: py_or_def truthy_def)

lemma clm_eaten:
  "check_longer_move p r c er ec e s = (Inr v, t) \<Longrightarrow> truthy v \<or> eaten_pieces t = eaten_pieces s"
proof (induct p r c er ec e s arbitrary: v t rule: clm_calls_induct)
  case (call p r c er ec e s)
  have j: "truthy x \<or> eaten_pieces t' = eaten_pieces u"
    if "jump en p r c dr dc er ec e u = (Inr x, t')" "(r, c) \<notin> memo s"
      "ext (s\<lparr>memo := insert (r, c) (memo s)\<rparr>) u" "dr = 1 \<or> dr = - 1" "dc = 1 \<or> dc = - 1"
    for en dr dc u x t'
    using that(1)
  proof (cases rule: jump_cases)
    case skip
    then show ?thesis by simp
  next
    case (call over)
    show ?thesis
      by (rule call.hyps[OF that(2,3) call(1) that(4,5) call(2)])
  qed
  from call.prems show ?case
  proof (cases rule: clm_cases)
    case seen
    then show ?thesis by simp
  next
    case found
    then show ?thesis by (simp add: truthy_def)
  next
    case (search a t1 b t2 c' t3 d)
    let ?s1 = "s\<lparr>memo := insert (r, c) (memo s)\<rparr>"
    have x0: "ext ?s1 ?s1" by (rule ext_refl)
    have x1: "ext ?s1 t1" by (rule jump_step[OF search(3)])
    have x2: "ext ?s1 t2" by (rule ext_trans[OF x1 jump_step[OF search(4)]])
    have x3: "ext ?s1 t3" by (rule ext_trans[OF x2 jump_step[OF search(5)]])
    have "truthy a \<or> eaten_pieces t1 = eaten_pieces ?s1"
      by (rule j[OF search(3) search(1) x0]) simp_all
    moreover have "truthy b \<or> eaten_pieces t2 = eaten_pieces t1"
      by (rule j[OF search(4) search(1) x1]) simp_all
    moreover have "truthy c' \<or> eaten_pieces t3 = eaten_pieces t2"
      by (rule j[OF search(5) search(1) x2]) simp_all
    moreover have "truthy d \<or> eaten_pieces t = eaten_pieces t3"
      by (rule j[OF search(6) search(1) x3]) simp_all
    ultimately show ?thesis
      using search(7) by (auto simp: truthy_py_or)
  qed
qed

lemma validate_move_refused:
  assumes "validate_move s ir ic er ec = (Inr (False, msg), t)"
  shows "eaten_pieces t = eaten_pieces s"
proof (cases "check_same_move ir ic er ec")
  case True
  with assms show ?thesis by (simp add: validate_move_def)
next
  case False
  from assms False obtain w where w: "check_wrong_direction s ir ic er = Inr w"
    by (cases "check_wrong_direction s ir ic er") (auto simp: validate_move_def bindE_simps)
  show ?thesis
  proof (cases "w \<or> (\<bar>er - ir\<bar> = 1 \<and> \<bar>ic - ec\<bar> = 1)")
    case True
    with assms False w show ?thesis
      by (cases "check_basic_move s er ec")
         (auto simp: validate_move_def bindE_simps split: if_splits)
  next
    case far: False
    from assms False w far obtain k where k: "get_piece (s\<lparr>memo := {}\<rparr>) ir ic = Inr k"
      by (cases "get_piece (s\<lparr>memo := {}\<rparr>) ir ic")
         (auto simp: validate_move_def bindE_simps Let_def)
    from assms False w far k obtain v where
      v: "check_longer_move k ir ic er ec [] (s\<lparr>memo := {}\<rparr>) = (Inr v, t)" "\<not> truthy v"
      by (cases "check_longer_move k ir ic er ec [] (s\<lparr>memo := {}\<rparr>)")
         (auto simp: validate_move_def bindE_simps Let_def bindE_def split: sum.splits if_splits)
    from clm_eaten[OF v(1)] v(2) show ?thesis by simp
  qed
qed

lemma eat_pieces_clears:
  "eat_pieces s = (Inr x, t) \<Longrightarrow> eaten_pieces t = []"
  by (auto simp: eat_pieces_def split: prod.splits sum.splits if_splits)

lemma board_assign_eaten:
  "board_assign s r c v = (Inr x, t) \<Longrightarrow> eaten_pieces t = eaten_pieces s"
  by (auto simp: board_assign_def split: sum.splits)

lemma promote_eaten:
  "check_piece_promotion_and_promote s r c = (Inr x, t) \<Longrightarrow> eaten_pieces t = eaten_pieces s"
  by (auto simp: check_piece_promotion_and_promote_def bindE_def
        dest!: board_assign_eaten split: sum.splits prod.splits if_splits)

lemma check_end_eaten: "eaten_pieces (check_end s) = eaten_pieces s"
  by (simp add: check_end_def Let_def)

lemma perform_move_clears:
  assumes "perform_move s ir ic er ec = (Inr b, t)"
  shows "eaten_pieces t = []"
proof -
  from assms obtain x1 s1 x2 s2 x3 s3 x4 s4 x5 s5 where
    a: "board_assign s1 er ec x1 = (Inr x2, s2)"
    "(if ir \<noteq> er \<or> ic \<noteq> ec then board_assign s2 ir ic EMPTY else (Inr (), s2)) = (Inr x3, s3)"
    "(if length (eaten_pieces s3) > 0 then eat_pieces s3 else (Inr (), s3)) = (Inr x4, s4)"
    "check_piece_promotion_and_promote s4 er ec = (Inr x5, s5)" "t = check_end s5"
    unfolding perform_move_def by (auto dest!: bindE_InrD)
  have "eaten_pieces s4 = []"
    using a(3) by (auto dest: eat_pieces_clears split: if_splits)
  then show ?thesis
    using a(4,5) by (simp add: promote_eaten check_end_eaten)
qed

text \<open>
  A performed move changed at most one of the two counts, and ended with \<^verbatim>\<open>check_end\<close>.
\<close>

lemma perform_move_counts:
  assumes "perform_move s ir ic er ec = (Inr b, t)"
  shows "\<exists>u. t = check_end u \<and> winner u = winner s \<and>
           (green_pieces u = green_pieces s \<or> orange_pieces u = orange_pieces s)"
  using assms
  by (auto simp: perform_move_def bindE_def board_assign_def eat_pieces_def
        check_piece_promotion_and_promote_def
      split: sum.splits prod.splits if_splits)

text \<open>
  What holds whenever the loop of \<^verbatim>\<open>CheckersUI.move\<close> is about to ask for a request, and
  when the game is over: no capture is pending, and while there is no winner both sides
  have a count other than 0.
\<close>

definition between_moves :: "checkers_logic \<Rightarrow> bool" where
  "between_moves s =
     (eaten_pieces s = [] \<and> (winner s = None \<longrightarrow> green_pieces s \<noteq> 0 \<and> orange_pieces s \<noteq> 0))"

lemma attempt_cases [consumes 1, case_names same refused performed]:
  assumes "attempt s q = Some r"
  obtains
    "r = Refused s"
  | ir ic er ec msg t where "q = (ir, ic, er, ec)" "check_valid_piece s ir ic = Inr True"
      "validate_move s ir ic er ec = (Inr (False, msg), t)" "r = Refused t"
  | ir ic er ec msg t b u where "q = (ir, ic, er, ec)" "check_valid_piece s ir ic = Inr True"
      "validate_input ir" "validate_input ic" "validate_input er" "validate_input ec"
      "validate_move s ir ic er ec = (Inr (True, msg), t)"
      "perform_move t ir ic er ec = (Inr b, u)"
      "r = Performed (if winner u = None then change_player u else u)"
  using assms unfolding attempt_def
  by (auto split: prod.splits if_splits sum.splits bool.splits)

lemma validate_move_keeps:
  assumes "validate_move s ir ic er ec = (r, t)"
  shows "green_pieces t = green_pieces s" "orange_pieces t = orange_pieces s" "winner t = winner s"
    "board t = board s" "current_player t = current_player s"
  using post_snd[OF validate_move_post_frame, of s ir ic er ec] assms
  by (simp_all add: frame_def)

lemma performed_between_moves:
  assumes "between_moves s" "winner s = None"
    and "validate_move s ir ic er ec = (Inr (True, msg), t)"
    and "perform_move t ir ic er ec = (Inr b, u)"
  shows "between_moves u"
    and "green_pieces u = 0 \<longrightarrow> winner u = Some PLAYER_ORANGE"
    and "orange_pieces u = 0 \<longrightarrow> winner u = Some PLAYER_GREEN"
proof -
  from perform_move_counts[OF assms(4)] obtain u' where
    u: "u = check_end u'" "winner u' = winner t"
      "green_pieces u' = green_pieces t \<or> orange_pieces u' = orange_pieces t"
    by blast
  have k: "green_pieces t \<noteq> 0" "orange_pieces t \<noteq> 0" "winner t = None"
    using assms(1,2) validate_move_keeps[OF assms(3)] by (simp_all add: between_moves_def)
  have e: "eaten_pieces u = []"
    by (rule perform_move_clears[OF assms(4)])
  show "green_pieces u = 0 \<longrightarrow> winner u = Some PLAYER_ORANGE"
    using u k by (auto simp: check_end_def Let_def)
  show "orange_pieces u = 0 \<longrightarrow> winner u = Some PLAYER_GREEN"
    using u k by (auto simp: check_end_def Let_def)
  show "between_moves u"
    using u k e by (auto simp: between_moves_def check_end_def Let_def split: if_splits)
qed

lemma attempt_between_moves:
  assumes "attempt s q = Some r" "between_moves s" "winner s = None"
  shows "case r of Refused t \<Rightarrow> between_moves t \<and> winner t = None | Performed t \<Rightarrow> between_moves t"
  using assms(1)
proof (cases rule: attempt_cases)
  case same
  with assms show ?thesis by simp
next
  case (refused ir ic er ec msg t)
  have "eaten_pieces t = eaten_pieces s"
    by (rule validate_move_refused[OF refused(3)])
  with assms(2,3) validate_move_keeps[OF refused(3)] refused(4) show ?thesis
    by (simp add: between_moves_def)
next
  case (performed ir ic er ec msg t b u)
  have "between_moves u"
    by (rule performed_between_moves(1)[OF assms(2,3) performed(7,8)])
  then show ?thesis
    using performed(9) by (simp add: between_moves_def change_player_def)
qed

lemma ui_move_between_moves:
  "between_moves s \<Longrightarrow> winner s = None \<Longrightarrow> ui_move s qs = Some t \<Longrightarrow> between_moves t"
proof (induct qs arbitrary: s)
  case Nil
  then show ?case by simp
next
  case (Cons q qs)
  from Cons.prems(3) obtain r where r: "attempt s q = Some r"
    by (cases "attempt s q") auto
  note a = attempt_between_moves[OF r Cons.prems(1,2)]
  show ?case
  proof (cases r)
    case (Refused u)
    with a Cons.prems(3) r show ?thesis
      by (auto intro: Cons.hyps)
  next
    case (Performed u)
    with a Cons.prems(3) r show ?thesis
      by (cases "winner u = None") (auto simp: play.simps intro: Cons.hyps)
  qed
qed

lemma init_game_between_moves: "between_moves init_game" "winner init_game = None"
  by (simp_all add: between_moves_def init_game_def)

lemma play_between_moves:
  assumes "play init_game qs = Some s"
  shows "between_moves s"
  using assms ui_move_between_moves[OF init_game_between_moves, of qs s]
  by (simp add: play.simps init_game_between_moves)

text \<open>Input typed after the end of the game changes nothing, and a game goes on from where it is.\<close>

lemma attempt_refused_winner:
  assumes "attempt s q = Some (Refused t)"
  shows "winner t = winner s"
  using assms
  by (cases rule: attempt_cases) (auto dest: validate_move_keeps(3))

lemma ui_move_append:
  "winner s = None \<Longrightarrow> ui_move s qs = Some t \<Longrightarrow> ui_move s (qs @ rs) = play t rs"
proof (induct qs arbitrary: s)
  case Nil
  then show ?case by (simp add: play.simps)
next
  case (Cons q qs)
  from Cons.prems(2) obtain r where r: "attempt s q = Some r"
    by (cases "attempt s q") auto
  show ?case
  proof (cases r)
    case (Refused u)
    have "winner u = None"
      using attempt_refused_winner[OF r[unfolded Refused]] Cons.prems(1) by simp
    with Cons.prems(2) r Refused show ?thesis
      by (auto intro: Cons.hyps)
  next
    case (Performed u)
    have step: "ui_move s (q # qs) = play u qs" "ui_move s ((q # qs) @ rs) = play u (qs @ rs)"
      using r Performed by simp_all
    show ?thesis
    proof (cases "winner u = None")
      case True
      then have "ui_move u qs = Some t"
        using Cons.prems(2) step(1) by (simp add: play.simps)
      from Cons.hyps[OF True this] True step(2) show ?thesis
        by (simp add: play.simps)
    next
      case False
      then have "t = u"
        using Cons.prems(2) step(1) by (simp add: play.simps)
      with False step(2) show ?thesis
        by (simp add: play.simps)
    qed
  qed
qed

lemma play_append:
  "play s qs = Some t \<Longrightarrow> play s (qs @ rs) = play t rs"
  by (cases "winner s = None") (auto simp: play.simps ui_move_append)

section \<open>Single diagonal steps (C3)\<close>

text \<open>
  The single-step path of \<^verbatim>\<open>validate_move\<close> reads the destination and assigns nothing.
\<close>

lemma single_step_result:
  assumes "check_wrong_direction s ir ic er = Inr False"
    and "\<bar>er - ir\<bar> = 1" and "\<bar>ic - ec\<bar> = 1"
    and "get_piece s er ec = Inr d"
  shows "validate_move s ir ic er ec =
           (Inr (if d \<noteq> EMPTY then (False, ''You can not move there, there is already a piece'')
                 else (True, '''')), s)"
proof -
  have "\<not> check_same_move ir ic er ec"
    using assms(2) by (auto simp: check_same_move_def)
  with assms show ?thesis
    by (simp add: validate_move_def bindE_simps check_basic_move_def)
qed

lemma play_after_two_moves:
  "play init_game [(2, 1, 3, 2), (5, 2, 4, 3)] = Some after_two_moves"
  by code_simp

text \<open>
  C3. Let \<open>s\<close> be the object after the game loop of the program took any requests \<open>qs\<close>
  (so in any state in which the program calls \<^verbatim>\<open>validate_move\<close>). For every move
  whose start and end differ by exactly one row and one column and which passes the
  same-square and direction checks, \<^verbatim>\<open>validate_move\<close> answers invalid with "You can not
  move there, there is already a piece" when the destination cell is not empty, and valid
  when it is empty; it leaves the object as it was, and the pending capture list is empty.
\<close>

theorem single_step_verdict:
  assumes "play init_game qs = Some s"
    and "\<not> check_same_move ir ic er ec"
    and "check_wrong_direction s ir ic er = Inr False"
    and "\<bar>er - ir\<bar> = 1" and "\<bar>ic - ec\<bar> = 1"
    and "get_piece s er ec = Inr d"
  shows "validate_move s ir ic er ec =
           (Inr (if d \<noteq> EMPTY then (False, ''You can not move there, there is already a piece'')
                 else (True, '''')), s) \<and>
         eaten_pieces (snd (validate_move s ir ic er ec)) = []"
proof -
  have "eaten_pieces s = []"
    using play_between_moves[OF assms(1)] by (simp add: between_moves_def)
  with single_step_result[OF assms(3-6)] show ?thesis by simp
qed

theorem single_step_verdict_witness:
  "play init_game [(2, 1, 3, 2), (5, 2, 4, 3)] = Some after_two_moves \<and>
   get_piece after_two_moves 3 4 = Inr EMPTY \<and>
   validate_move after_two_moves 2 3 3 4 = (Inr (True, ''''), after_two_moves) \<and>
   eaten_pieces (snd (validate_move after_two_moves 2 3 3 4)) = [] \<and>
   get_piece after_two_moves 2 3 = Inr GREEN_PIECE \<and>
   validate_move after_two_moves 1 2 2 3 =
     (Inr (False, ''You can not move there, there is already a piece''), after_two_moves) \<and>
   eaten_pieces (snd (validate_move after_two_moves 1 2 2 3)) = []"
proof -
  note p = play_after_two_moves
  have a: "\<not> check_same_move 2 3 3 4" "check_wrong_direction after_two_moves 2 3 3 = Inr False"
    "get_piece after_two_moves 3 4 = Inr EMPTY"
    by code_simp+
  have b: "\<not> check_same_move 1 2 2 3" "check_wrong_direction after_two_moves 1 2 2 = Inr False"
    "get_piece after_two_moves 2 3 = Inr GREEN_PIECE"
    by code_simp+
  have e: "eaten_pieces after_two_moves = []"
    by code_simp
  show ?thesis
    using p a b e single_step_verdict[OF p a(1,2) _ _ a(3)]
      single_step_verdict[OF p b(1,2) _ _ b(3)]
    by simp
qed

section \<open>The end of the game (C6)\<close>

text \<open>
  A complete game of 23 requests, each performed. \<open>won_input\<close> are the first 22; then
  Green is to play, and his king on (7,2) can take the last orange piece, on (6,1).
\<close>

definition won_input :: "request list" where
  "won_input =
     [(2, 3, 3, 4), (5, 6, 4, 7), (1, 2, 2, 3), (6, 5, 5, 6), (0, 3, 1, 2), (7, 6, 6, 5),
      (3, 4, 4, 5), (4, 7, 3, 6), (2, 5, 4, 7), (5, 2, 4, 1), (2, 3, 3, 2), (5, 4, 4, 3),
      (3, 2, 7, 6), (7, 4, 6, 5), (7, 6, 3, 2), (7, 2, 6, 1), (4, 7, 6, 5), (5, 0, 4, 1),
      (3, 2, 7, 2), (6, 7, 5, 6), (4, 5, 6, 7), (7, 0, 6, 1)]"

definition before_last :: checkers_logic where
  "before_last = the (play init_game won_input)"

text \<open>
  C6. Let \<open>s\<close> be the object after the game loop of the program took any requests \<open>qs\<close>,
  with no winner yet, and let \<^verbatim>\<open>validate_move\<close> accept a move and \<^verbatim>\<open>perform_move\<close>
  perform it. If \<^verbatim>\<open>green_pieces\<close> is 0 afterwards the winner is Orange, and if
  \<^verbatim>\<open>orange_pieces\<close> is 0 afterwards the winner is Green. And once a count is 0 no further
  move is accepted: when that move was the request the loop took next, the game stays
  in the object \<^verbatim>\<open>perform_move\<close> left, whatever requests \<open>rs\<close> follow.
\<close>

theorem winner_after_capture:
  assumes "play init_game qs = Some s" and "winner s = None"
    and "validate_move s ir ic er ec = (Inr (True, msg), t)"
    and "perform_move t ir ic er ec = (Inr b, u)"
  shows "(green_pieces u = 0 \<longrightarrow> winner u = Some PLAYER_ORANGE) \<and>
         (orange_pieces u = 0 \<longrightarrow> winner u = Some PLAYER_GREEN) \<and>
         ((green_pieces u = 0 \<or> orange_pieces u = 0) \<and> check_valid_piece s ir ic = Inr True \<and>
          validate_input ir \<and> validate_input ic \<and> validate_input er \<and> validate_input ec
          \<longrightarrow> play init_game (qs @ (ir, ic, er, ec) # rs) = Some u)"
proof -
  note bm = play_between_moves[OF assms(1)]
  note w = performed_between_moves(2,3)[OF bm assms(2-4)]
  have "play init_game (qs @ (ir, ic, er, ec) # rs) = Some u"
    if z: "green_pieces u = 0 \<or> orange_pieces u = 0"
      and v: "check_valid_piece s ir ic = Inr True"
        "validate_input ir" "validate_input ic" "validate_input er" "validate_input ec"
  proof -
    have wu: "winner u \<noteq> None"
      using z w by auto
    have "attempt s (ir, ic, er, ec) = Some (Performed u)"
      using wu v assms(3,4) by (auto simp: attempt_def)
    then have "ui_move s ((ir, ic, er, ec) # rs) = Some u"
      using wu by (simp add: play.simps)
    then show ?thesis
      using play_append[OF assms(1), of "(ir, ic, er, ec) # rs"] assms(2)
      by (simp add: play.simps)
  qed
  with w show ?thesis by blast
qed

theorem winner_after_capture_witness:
  "play init_game won_input = Some before_last \<and> winner before_last = None \<and>
   check_valid_piece before_last 7 2 = Inr True \<and>
   fst (validate_move before_last 7 2 5 0) = Inr (True, '''') \<and>
   fst (perform_move (snd (validate_move before_last 7 2 5 0)) 7 2 5 0) = Inr True \<and>
   orange_pieces (snd (perform_move (snd (validate_move before_last 7 2 5 0)) 7 2 5 0)) = 0 \<and>
   winner (snd (perform_move (snd (validate_move before_last 7 2 5 0)) 7 2 5 0))
     = Some PLAYER_GREEN \<and>
   play init_game (won_input @ (7, 2, 5, 0) # [(5, 0, 4, 1), (0, 1, 1, 0)])
     = Some (snd (perform_move (snd (validate_move before_last 7 2 5 0)) 7 2 5 0))"
proof -
  have "play init_game won_input \<noteq> None"
    by code_simp
  then have p: "play init_game won_input = Some before_last"
    by (auto simp: before_last_def)
  have n: "winner before_last = None" and c: "check_valid_piece before_last 7 2 = Inr True"
    by code_simp+
  have fv: "fst (validate_move before_last 7 2 5 0) = Inr (True, '''')"
    by code_simp
  then have v: "validate_move before_last 7 2 5 0 =
      (Inr (True, ''''), snd (validate_move before_last 7 2 5 0))"
    by (simp add: prod_eq_iff)
  have fm: "fst (perform_move (snd (validate_move before_last 7 2 5 0)) 7 2 5 0) = Inr True"
    by code_simp
  then have m: "perform_move (snd (validate_move before_last 7 2 5 0)) 7 2 5 0 =
      (Inr True, snd (perform_move (snd (validate_move before_last 7 2 5 0)) 7 2 5 0))"
    by (simp add: prod_eq_iff)
  have z: "orange_pieces (snd (perform_move (snd (validate_move before_last 7 2 5 0)) 7 2 5 0)) = 0"
    by code_simp
  have i: "validate_input 7" "validate_input 2" "validate_input 5" "validate_input 0"
    by (simp_all add: validate_input_def)
  show ?thesis
    using p n c fv fm z i winner_after_capture[OF p n v m, of "[(5, 0, 4, 1), (0, 1, 1, 0)]"]
    by simp
qed

section \<open>Kings and the direction check (C2)\<close>

text \<open>
  A game of 12 requests, each performed, in which the green man that started on (2,1)
  takes the orange men on (4,3) and (6,5) and is crowned on (7,6); Green is to play.
\<close>

definition king_input :: "request list" where
  "king_input =
     [(2, 1, 3, 2), (5, 2, 4, 3), (2, 7, 3, 6), (5, 4, 4, 5), (3, 2, 5, 4), (5, 6, 4, 7),
      (2, 3, 3, 2), (6, 7, 5, 6), (2, 5, 3, 4), (7, 6, 6, 7), (5, 4, 7, 6), (5, 0, 4, 1)]"

definition king_game :: checkers_logic where
  "king_game = the (play init_game king_input)"

text \<open>
  C2 as stated (a king stepping against the advancing direction of its side is rejected
  with "You have to move forward", as a man would be) is false: \<^verbatim>\<open>check_wrong_direction\<close>
  compares the piece with \<^verbatim>\<open>GREEN_PIECE\<close> and \<^verbatim>\<open>ORANGE_PIECE\<close> only. In the game
  \<open>king_game\<close>, with Green to play and the green king on (7,6), the step back to the empty
  square (6,5) is accepted.
\<close>

theorem king_backward_step_counterexample:
  "play init_game king_input = Some king_game \<and>
   current_player king_game = PLAYER_GREEN \<and>
   check_valid_piece king_game 7 6 = Inr True \<and>
   get_piece king_game 7 6 = Inr GREEN_QUEEN \<and>
   get_piece king_game 6 5 = Inr EMPTY \<and>
   fst (validate_move king_game 7 6 6 5) = Inr (True, '''')"
proof -
  have "play init_game king_input \<noteq> None"
    by code_simp
  then have "play init_game king_input = Some king_game"
    by (auto simp: king_game_def)
  moreover have "current_player king_game = PLAYER_GREEN"
    "check_valid_piece king_game 7 6 = Inr True"
    "get_piece king_game 7 6 = Inr GREEN_QUEEN"
    "get_piece king_game 6 5 = Inr EMPTY"
    "fst (validate_move king_game 7 6 6 5) = Inr (True, '''')"
    by code_simp+
  ultimately show ?thesis by simp
qed

text \<open>
  C2, amended. For every state and every move whose start square holds a king,
  \<^verbatim>\<open>check_wrong_direction\<close> answers \<open>False\<close> and \<^verbatim>\<open>validate_move\<close> never answers with the
  reason "You have to move forward": only men are held to their advancing direction. A
  king's step of one row and one column, forward or backward, onto an empty square is
  accepted.
\<close>

theorem king_not_direction_checked:
  assumes "get_piece s ir ic = Inr k" and "k = GREEN_QUEEN \<or> k = ORANGE_QUEEN"
  shows "check_wrong_direction s ir ic er = Inr False \<and>
         fst (validate_move s ir ic er ec) \<noteq> Inr (False, ''You have to move forward'') \<and>
         (\<bar>er - ir\<bar> = 1 \<and> \<bar>ic - ec\<bar> = 1 \<and> get_piece s er ec = Inr EMPTY
          \<longrightarrow> validate_move s ir ic er ec = (Inr (True, ''''), s))"
proof -
  have w: "check_wrong_direction s ir ic er = Inr False"
    using assms by (auto simp: check_wrong_direction_def)
  have "post (validate_move s ir ic er ec) (\<lambda>_. True)
          (\<lambda>x _. x \<noteq> (False, ''You have to move forward''))"
    unfolding validate_move_def w
    apply ((intro post_if post_let post_bindE post_pure impI allI
           | (rule post_cases)
           | (auto; fail))+)
    done
  then have "fst (validate_move s ir ic er ec) \<noteq> Inr (False, ''You have to move forward'')"
    by (cases "validate_move s ir ic er ec") (auto simp: post_def split: sum.splits)
  moreover have "validate_move s ir ic er ec = (Inr (True, ''''), s)"
    if "\<bar>er - ir\<bar> = 1" "\<bar>ic - ec\<bar> = 1" "get_piece s er ec = Inr EMPTY"
    using single_step_result[OF w that] by simp
  ultimately show ?thesis using w by blast
qed

theorem king_not_direction_checked_witness:
  "get_piece king_game 7 6 = Inr GREEN_QUEEN \<and>
   get_piece king_game 6 5 = Inr EMPTY \<and>
   check_wrong_direction king_game 7 6 6 = Inr False \<and>
   fst (validate_move king_game 7 6 6 5) \<noteq> Inr (False, ''You have to move forward'') \<and>
   validate_move king_game 7 6 6 5 = (Inr (True, ''''), king_game)"
proof -
  have h: "get_piece king_game 7 6 = Inr GREEN_QUEEN" and e: "get_piece king_game 6 5 = Inr EMPTY"
    by code_simp+
  show ?thesis
    using h e king_not_direction_checked[OF h, of 6 5] by simp
qed

section \<open>Validation reads the board within 0..7 (C10)\<close>

text \<open>
  Python's subscript takes the indexes \<open>-len..-1\<close> too, so that a call that raises no
  \<^verbatim>\<open>IndexError\<close> may still have read with an index outside \<open>0..len-1\<close>. To tell, the
  methods of the validation are run a second time with a subscript that refuses every
  index outside \<open>0..len-1\<close>: \<open>get2_strict\<close> for \<open>get2\<close>, and nothing else changed.
\<close>

definition py_getitem_strict :: "'a list \<Rightarrow> int \<Rightarrow> error + 'a" where
  "py_getitem_strict xs i =
     (if 0 \<le> i \<and> i < int (length xs) then Inr (xs ! nat i) else Inl IndexError)"

definition get2_strict :: "'a list list \<Rightarrow> int \<Rightarrow> int \<Rightarrow> error + 'a" where
  "get2_strict b r c =
     (case py_getitem_strict b r of Inl e \<Rightarrow> Inl e | Inr row \<Rightarrow> py_getitem_strict row c)"

definition get_piece_strict :: "checkers_logic \<Rightarrow> int \<Rightarrow> int \<Rightarrow> error + cell" where
  "get_piece_strict s row col = get2_strict (board s) row col"

definition check_basic_move_strict :: "checkers_logic \<Rightarrow> int \<Rightarrow> int \<Rightarrow> error + bool" where
  "check_basic_move_strict s end_row end_col =
     (case get_piece_strict s end_row end_col of
        Inl e \<Rightarrow> Inl e
      | Inr p \<Rightarrow> Inr (if p \<noteq> EMPTY then True else False))"

definition check_wrong_direction_strict ::
  "checkers_logic \<Rightarrow> int \<Rightarrow> int \<Rightarrow> int \<Rightarrow> error + bool"
where
  "check_wrong_direction_strict s init_row init_col end_row =
     (let difference = end_row - init_row in
      case get_piece_strict s init_row init_col of
        Inl e \<Rightarrow> Inl e
      | Inr piece \<Rightarrow>
          Inr (if piece = GREEN_PIECE \<and> difference \<le> 0 then True
               else if piece = ORANGE_PIECE \<and> difference \<ge> 0 then True
               else False))"

text \<open>
  The second run of the search is defined by recursion on a bound \<open>fuel\<close> of the depth of
  the calls; \<open>None\<close> is a run that used up its fuel.
\<close>

definition bindS ::
  "'a outcome option \<Rightarrow> ('a \<Rightarrow> checkers_logic \<Rightarrow> 'b outcome option) \<Rightarrow> 'b outcome option"
where
  "bindS m f =
     (case m of None \<Rightarrow> None | Some (Inl e, s) \<Rightarrow> Some (Inl e, s) | Some (Inr x, s) \<Rightarrow> f x s)"

lemma bindS_cong [fundef_cong]:
  "m = m' \<Longrightarrow> (\<And>x s. m' = Some (Inr x, s) \<Longrightarrow> f x s = f' x s) \<Longrightarrow> bindS m f = bindS m' f'"
  by (auto simp: bindS_def split: option.splits prod.splits sum.splits)

fun check_longer_move_strict ::
  "nat \<Rightarrow> cell \<Rightarrow> int \<Rightarrow> int \<Rightarrow> int \<Rightarrow> int \<Rightarrow> (int \<times> int) list \<Rightarrow> checkers_logic
     \<Rightarrow> pybool outcome option"
where
  "check_longer_move_strict 0 piece init_row init_col end_row end_col eaten s = None"
| "check_longer_move_strict (Suc fuel) piece init_row init_col end_row end_col eaten s =
    (if (init_row, init_col) \<in> memo s then Some (Inr None, s)
     else
      let s = s\<lparr>memo := insert (init_row, init_col) (memo s)\<rparr> in
      if init_row = end_row \<and> init_col = end_col then
        Some (Inr (Some True), s\<lparr>eaten_pieces := eaten\<rparr>)
      else
       bindS
         (if piece = GREEN_PIECE \<or> piece = GREEN_QUEEN \<or> piece = ORANGE_QUEEN then
            if init_row \<le> int (length (board s)) - 3 then
              bindS
                (if init_col \<ge> 2 then
                   bindS (Some (get2_strict (board s) (init_row + 1) (init_col - 1), s))
                     (\<lambda>over s.
                        if check_opposite (current_player s) over then
                          check_longer_move_strict fuel piece (init_row + 2) (init_col - 2) end_row end_col
                            (eaten @ [(init_row + 1, init_col - 1)]) s
                        else Some (Inr (Some False), s))
                 else Some (Inr (Some False), s))
                (\<lambda>top_right s.
                   bindS
                     (if init_col \<le> int (length (board s)) - 3 then
                        bindS (Some (get2_strict (board s) (init_row + 1) (init_col + 1), s))
                          (\<lambda>over s.
                             if check_opposite (current_player s) over then
                               check_longer_move_strict fuel piece (init_row + 2) (init_col + 2) end_row end_col
                                 (eaten @ [(init_row + 1, init_col + 1)]) s
                             else Some (Inr (Some False), s))
                      else Some (Inr (Some False), s))
                     (\<lambda>top_left s. Some (Inr (top_right, top_left), s)))
            else Some (Inr (Some False, Some False), s)
          else Some (Inr (Some False, Some False), s))
         (\<lambda>tops s. case tops of (top_right, top_left) \<Rightarrow>
            bindS
              (if piece = ORANGE_PIECE \<or> piece = GREEN_QUEEN \<or> piece = ORANGE_QUEEN then
                 if init_row \<ge> 2 then
                   bindS
                     (if init_col \<le> int (length (board s)) - 3 then
                        bindS (Some (get2_strict (board s) (init_row - 1) (init_col + 1), s))
                          (\<lambda>over s.
                             if check_opposite (current_player s) over then
                               check_longer_move_strict fuel piece (init_row - 2) (init_col + 2) end_row end_col
                                 (eaten @ [(init_row - 1, init_col + 1)]) s
                             else Some (Inr (Some False), s))
                      else Some (Inr (Some False), s))
                     (\<lambda>bottom_right s.
                        bindS
                          (if init_col \<ge> 2 then
                             bindS (Some (get2_strict (board s) (init_row - 1) (init_col - 1), s))
                               (\<lambda>over s.
                                  if check_opposite (current_player s) over then
                                    check_longer_move_strict fuel piece (init_row - 2) (init_col - 2) end_row end_col
                                      (eaten @ [(init_row - 1, init_col - 1)]) s
                                  else Some (Inr (Some False), s))
                           else Some (Inr (Some False), s))
                          (\<lambda>bottom_left s. Some (Inr (bottom_right, bottom_left), s)))
                 else Some (Inr (Some False, Some False), s)
               else Some (Inr (Some False, Some False), s))
              (\<lambda>bottoms s. case bottoms of (bottom_right, bottom_left) \<Rightarrow>
                 Some (Inr (py_or (py_or (py_or top_right top_left) bottom_right) bottom_left), s))))"

declare check_longer_move_strict.simps [simp del]

definition validate_move_strict ::
  "nat \<Rightarrow> checkers_logic \<Rightarrow> int \<Rightarrow> int \<Rightarrow> int \<Rightarrow> int \<Rightarrow> (bool \<times> string) outcome option"
where
  "validate_move_strict fuel s init_row init_col end_row end_col =
    (if check_same_move init_row init_col end_row end_col then
       Some (Inr (False, ''You have to move the piece''), s)
     else
       bindS (Some (check_wrong_direction_strict s init_row init_col end_row, s))
         (\<lambda>wrong s.
            if wrong then Some (Inr (False, ''You have to move forward''), s)
            else if \<bar>end_row - init_row\<bar> = 1 \<and> \<bar>init_col - end_col\<bar> = 1 then
              bindS (Some (check_basic_move_strict s end_row end_col, s))
                (\<lambda>occupied s.
                   if occupied then
                     Some (Inr (False, ''You can not move there, there is already a piece''), s)
                   else Some (Inr (True, ''''), s))
            else
              let s = s\<lparr>memo := {}\<rparr> in
              bindS (Some (get_piece_strict s init_row init_col, s))
                (\<lambda>piece s.
                   bindS (check_longer_move_strict fuel piece init_row init_col end_row end_col [] s)
                     (\<lambda>found s.
                        if \<not> truthy found then Some (Inr (False, ''That move is not allowed''), s)
                        else Some (Inr (True, ''''), s)))))"

text \<open>
  The strict run tells the two apart: for the step from (5,0) to column -1 Python's
  subscript reads \<^verbatim>\<open>board[4][-1]\<close>, the strict one refuses it.
\<close>

lemma strict_refuses_negative_index:
  "fst (validate_move init_game 5 0 4 (- 1)) = Inr (True, '''') \<and>
   validate_move_strict 65 init_game 5 0 4 (- 1) = Some (Inl IndexError, init_game)"
  by code_simp

text \<open>The strict search, one direction at a time, as \<open>clm_flat\<close> for the search.\<close>

definition jump_strict ::
  "nat \<Rightarrow> bool \<Rightarrow> cell \<Rightarrow> int \<Rightarrow> int \<Rightarrow> int \<Rightarrow> int \<Rightarrow> int \<Rightarrow> int \<Rightarrow> (int \<times> int) list \<Rightarrow> checkers_logic
     \<Rightarrow> pybool outcome option"
where
  "jump_strict fuel enabled p r c dr dc er ec e s =
     (if enabled \<and> col_guard s c dc then
        bindS (Some (get2_strict (board s) (r + dr) (c + dc), s))
          (\<lambda>over s.
             if check_opposite (current_player s) over then
               check_longer_move_strict fuel p (r + 2 * dr) (c + 2 * dc) er ec
                 (e @ [(r + dr, c + dc)]) s
             else Some (Inr (Some False), s))
      else Some (Inr (Some False), s))"

lemma bindS_simps:
  "bindS (Some (Inr x, s)) f = f x s"
  "bindS (Some (Inl e, s)) f = Some (Inl e, s)"
  "bindS None f = None"
  by (simp_all add: bindS_def)

lemma bindS_assoc: "bindS (bindS m f) g = bindS m (\<lambda>x s. bindS (f x s) g)"
  by (auto simp: bindS_def split: option.splits prod.splits sum.splits)

lemma clm_strict_flat:
  "check_longer_move_strict (Suc fuel) p r c er ec e s =
   (if (r, c) \<in> memo s then Some (Inr None, s)
    else
      let s1 = s\<lparr>memo := insert (r, c) (memo s)\<rparr>;
          up = (may_extend p 1 \<and> r \<le> int (length (board s1)) - 3);
          down = (may_extend p (- 1) \<and> 2 \<le> r)
      in
      if r = er \<and> c = ec then Some (Inr (Some True), s1\<lparr>eaten_pieces := e\<rparr>)
      else
        bindS (jump_strict fuel up p r c 1 (- 1) er ec e s1) (\<lambda>top_right s.
        bindS (jump_strict fuel up p r c 1 1 er ec e s) (\<lambda>top_left s.
        bindS (jump_strict fuel down p r c (- 1) 1 er ec e s) (\<lambda>bottom_right s.
        bindS (jump_strict fuel down p r c (- 1) (- 1) er ec e s) (\<lambda>bottom_left s.
          Some (Inr (py_or (py_or (py_or top_right top_left) bottom_right) bottom_left), s))))))"
proof -
  have up: "may_extend p 1 = (p = GREEN_PIECE \<or> p = GREEN_QUEEN \<or> p = ORANGE_QUEEN)"
    and down: "may_extend p (- 1) = (p = ORANGE_PIECE \<or> p = GREEN_QUEEN \<or> p = ORANGE_QUEEN)"
    by (cases p; simp)+
  show ?thesis
    apply (subst check_longer_move_strict.simps)
    apply (cases "may_extend p 1"; cases "r \<le> int (length (board s)) - 3";
           cases "may_extend p (- 1)"; cases "2 \<le> r")
    apply (simp_all add: Let_def jump_strict_def col_guard_def bindS_assoc bindS_simps up down
                    cong: if_cong)
    done
qed

text \<open>
  On the 8 by 8 board, from a square of the board and with more fuel than there are
  squares not yet visited, the strict search is the search.
\<close>

lemma get2_strict_eq:
  "wf_board b \<Longrightarrow> on_board r c \<Longrightarrow> get2_strict b r c = get2 b r c"
  by (auto simp: wf_board_def on_board_def get2_strict_def py_getitem_strict_def get2_def
        py_getitem_def py_valid_def py_norm_def list_all_length)

lemma agree_bindI:
  "m' = Some m \<Longrightarrow> (\<And>x t. m = (Inr x, t) \<Longrightarrow> F' x t = Some (F x t))
     \<Longrightarrow> bindS m' F' = Some (bindE m F)"
  by (cases m) (auto simp: bindS_def bindE_def split: sum.splits)

lemma agree_if:
  "(c \<Longrightarrow> a' = Some a) \<Longrightarrow> (\<not> c \<Longrightarrow> b' = Some b)
     \<Longrightarrow> (if c then a' else b') = Some (if c then a else b)"
  by simp

lemma card_unvisited:
  assumes "memo s \<subseteq> memo u"
  shows "card (squares - memo u) \<le> card (squares - memo s)"
  using assms by (intro card_mono) (auto simp: squares_def)

lemma card_unvisited_insert:
  assumes "on_board r c" "(r, c) \<notin> memo s" "card (squares - memo s) < Suc n"
  shows "card (squares - insert (r, c) (memo s)) < n"
proof -
  have "(r, c) \<in> squares"
    using assms(1) by (auto simp: squares_def on_board_def)
  with assms(2) have "squares - insert (r, c) (memo s) \<subset> squares - memo s"
    by auto
  then have "card (squares - insert (r, c) (memo s)) < card (squares - memo s)"
    by (intro psubset_card_mono) (auto simp: squares_def)
  with assms(3) show ?thesis by simp
qed

lemma jump_agree:
  assumes IH: "\<forall>p r c er ec e s. wf_board (board s) \<longrightarrow> on_board r c \<longrightarrow>
      card (squares - memo s) < n \<longrightarrow>
      check_longer_move_strict n p r c er ec e s = Some (check_longer_move p r c er ec e s)"
    and wf: "wf_board (board u)" and on: "on_board r c"
    and d: "dr = 1 \<or> dr = - 1" "dc = 1 \<or> dc = - 1"
    and en: "en \<Longrightarrow> on_board (r + 2 * dr) c"
    and fuel: "card (squares - memo u) < n"
  shows "jump_strict n en p r c dr dc er ec e u = Some (jump en p r c dr dc er ec e u)"
proof (cases "en \<and> col_guard u c dc")
  case False
  then show ?thesis by (auto simp: jump_strict_def jump_def)
next
  case True
  have land: "on_board (r + 2 * dr) (c + 2 * dc)" and over: "on_board (r + dr) (c + dc)"
    using True en on d wf_board_length[OF wf]
    by (auto simp: on_board_def col_guard_def split: if_splits)
  from get2_on_board[OF wf over] obtain x where x: "get2 (board u) (r + dr) (c + dc) = Inr x"
    by blast
  have xs: "get2_strict (board u) (r + dr) (c + dc) = Inr x"
    using get2_strict_eq[OF wf over] x by simp
  show ?thesis
    using True x xs IH[rule_format, OF wf land fuel]
    by (simp add: jump_strict_def jump_def bindS_simps bindE_simps)
qed

lemma clm_strict_agree:
  "wf_board (board s) \<Longrightarrow> on_board r c \<Longrightarrow> card (squares - memo s) < n \<Longrightarrow>
   check_longer_move_strict n p r c er ec e s = Some (check_longer_move p r c er ec e s)"
proof (induct n arbitrary: p r c er ec e s)
  case 0
  then show ?case by simp
next
  case (Suc n)
  note wf = Suc.prems(1) and on = Suc.prems(2)
  define s1 where "s1 = s\<lparr>memo := insert (r, c) (memo s)\<rparr>"
  define up where "up = (may_extend p 1 \<and> r \<le> int (length (board s)) - 3)"
  define down where "down = (may_extend p (- 1) \<and> 2 \<le> r)"
  have wf1: "wf_board (board s1)"
    using wf by (simp add: s1_def)
  have upI: "up \<Longrightarrow> on_board (r + 2 * 1) c" and downI: "down \<Longrightarrow> on_board (r + 2 * (- 1)) c"
    using on wf_board_length[OF wf] by (auto simp: up_def down_def on_board_def)
  show ?case
  proof (cases "(r, c) \<in> memo s \<or> (r = er \<and> c = ec)")
    case True
    then show ?thesis
      by (subst clm_strict_flat, subst clm_flat) (auto simp: Let_def)
  next
    case False
    then have fresh: "(r, c) \<notin> memo s" and nt: "\<not> (r = er \<and> c = ec)"
      by auto
    have f1: "card (squares - memo s1) < n"
      using card_unvisited_insert[OF on fresh Suc.prems(3)] by (simp add: s1_def)
    have fuel: "card (squares - memo t) < n" if "ext s1 t" for t
      using card_unvisited[of s1 t] that f1 by (auto simp: ext_def)
    have wfx: "wf_board (board t)" if "ext s1 t" for t
      using that wf1 by (simp add: ext_def)
    have "\<forall>p r c er ec e s. wf_board (board s) \<longrightarrow> on_board r c \<longrightarrow>
        card (squares - memo s) < n \<longrightarrow>
        check_longer_move_strict n p r c er ec e s = Some (check_longer_move p r c er ec e s)"
      using Suc.hyps by blast
    note J = jump_agree[OF this]
    have ch: "bindS (jump_strict n up p r c 1 (- 1) er ec e s1) (\<lambda>top_right s.
            bindS (jump_strict n up p r c 1 1 er ec e s) (\<lambda>top_left s.
            bindS (jump_strict n down p r c (- 1) 1 er ec e s) (\<lambda>bottom_right s.
            bindS (jump_strict n down p r c (- 1) (- 1) er ec e s) (\<lambda>bottom_left s.
              Some (Inr (py_or (py_or (py_or top_right top_left) bottom_right) bottom_left), s)))))
          = Some (bindE (jump up p r c 1 (- 1) er ec e s1) (\<lambda>top_right s.
            bindE (jump up p r c 1 1 er ec e s) (\<lambda>top_left s.
            bindE (jump down p r c (- 1) 1 er ec e s) (\<lambda>bottom_right s.
            bindE (jump down p r c (- 1) (- 1) er ec e s) (\<lambda>bottom_left s.
              (Inr (py_or (py_or (py_or top_right top_left) bottom_right) bottom_left), s))))))"
    proof (rule agree_bindI)
      show "jump_strict n up p r c 1 (- 1) er ec e s1 = Some (jump up p r c 1 (- 1) er ec e s1)"
        by (rule J[OF wf1 on _ _ upI f1]) simp_all
    next
      fix a t1 assume j1: "jump up p r c 1 (- 1) er ec e s1 = (Inr a, t1)"
      have x1: "ext s1 t1" by (rule jump_step[OF j1])
      show "bindS (jump_strict n up p r c 1 1 er ec e t1) (\<lambda>top_left s.
            bindS (jump_strict n down p r c (- 1) 1 er ec e s) (\<lambda>bottom_right s.
            bindS (jump_strict n down p r c (- 1) (- 1) er ec e s) (\<lambda>bottom_left s.
              Some (Inr (py_or (py_or (py_or a top_left) bottom_right) bottom_left), s))))
          = Some (bindE (jump up p r c 1 1 er ec e t1) (\<lambda>top_left s.
            bindE (jump down p r c (- 1) 1 er ec e s) (\<lambda>bottom_right s.
            bindE (jump down p r c (- 1) (- 1) er ec e s) (\<lambda>bottom_left s.
              (Inr (py_or (py_or (py_or a top_left) bottom_right) bottom_left), s)))))"
      proof (rule agree_bindI)
        show "jump_strict n up p r c 1 1 er ec e t1 = Some (jump up p r c 1 1 er ec e t1)"
          by (rule J[OF wfx[OF x1] on _ _ upI fuel[OF x1]]) simp_all
      next
        fix b t2 assume j2: "jump up p r c 1 1 er ec e t1 = (Inr b, t2)"
        have x2: "ext s1 t2" by (rule ext_trans[OF x1 jump_step[OF j2]])
        show "bindS (jump_strict n down p r c (- 1) 1 er ec e t2) (\<lambda>bottom_right s.
              bindS (jump_strict n down p r c (- 1) (- 1) er ec e s) (\<lambda>bottom_left s.
                Some (Inr (py_or (py_or (py_or a b) bottom_right) bottom_left), s)))
            = Some (bindE (jump down p r c (- 1) 1 er ec e t2) (\<lambda>bottom_right s.
              bindE (jump down p r c (- 1) (- 1) er ec e s) (\<lambda>bottom_left s.
                (Inr (py_or (py_or (py_or a b) bottom_right) bottom_left), s))))"
        proof (rule agree_bindI)
          show "jump_strict n down p r c (- 1) 1 er ec e t2
                  = Some (jump down p r c (- 1) 1 er ec e t2)"
            by (rule J[OF wfx[OF x2] on _ _ downI fuel[OF x2]]) simp_all
        next
          fix c' t3 assume j3: "jump down p r c (- 1) 1 er ec e t2 = (Inr c', t3)"
          have x3: "ext s1 t3" by (rule ext_trans[OF x2 jump_step[OF j3]])
          show "bindS (jump_strict n down p r c (- 1) (- 1) er ec e t3) (\<lambda>bottom_left s.
                  Some (Inr (py_or (py_or (py_or a b) c') bottom_left), s))
              = Some (bindE (jump down p r c (- 1) (- 1) er ec e t3) (\<lambda>bottom_left s.
                  (Inr (py_or (py_or (py_or a b) c') bottom_left), s)))"
          proof (rule agree_bindI)
            show "jump_strict n down p r c (- 1) (- 1) er ec e t3
                    = Some (jump down p r c (- 1) (- 1) er ec e t3)"
              by (rule J[OF wfx[OF x3] on _ _ downI fuel[OF x3]]) simp_all
          qed simp
        qed
      qed
    qed
    show ?thesis
      by (subst clm_strict_flat, subst clm_flat)
         (simp add: fresh nt Let_def ch[unfolded s1_def up_def down_def])
  qed
qed

lemma validate_move_strict_agree:
  assumes "wf_board (board s)" "on_board ir ic" "on_board er ec" "64 < fuel"
  shows "validate_move_strict fuel s ir ic er ec = Some (validate_move s ir ic er ec)"
proof -
  have g: "get_piece_strict s ir ic = get_piece s ir ic"
    "get_piece_strict (s\<lparr>memo := {}\<rparr>) ir ic = get_piece (s\<lparr>memo := {}\<rparr>) ir ic"
    "get_piece_strict s er ec = get_piece s er ec"
    using assms(1-3) by (simp_all add: get_piece_strict_def get_piece_def get2_strict_eq)
  have w: "check_wrong_direction_strict s ir ic er = check_wrong_direction s ir ic er"
    and b: "check_basic_move_strict s er ec = check_basic_move s er ec"
    by (simp_all add: check_wrong_direction_strict_def check_wrong_direction_def
          check_basic_move_strict_def check_basic_move_def g)
  have c: "check_longer_move_strict fuel p ir ic er ec [] (s\<lparr>memo := {}\<rparr>)
             = Some (check_longer_move p ir ic er ec [] (s\<lparr>memo := {}\<rparr>))" for p
    using assms by (intro clm_strict_agree) (simp_all add: card_squares)
  show ?thesis
    unfolding validate_move_strict_def validate_move_def Let_def
    by (intro agree_if agree_bindI) (auto simp: w b g c)
qed

text \<open>
  C10. On the 8 by 8 board, if all four coordinates passed to \<^verbatim>\<open>validate_move\<close> are
  within 0..7, no subscript of the validation raises \<^verbatim>\<open>IndexError\<close>, and the visited set
  afterwards is the one from before the call (no search was made) or holds squares of the
  board only: every square passed to a recursive call of the search lies on the board.
  And every read of the board, in \<^verbatim>\<open>validate_move\<close> and in the search at any depth, is
  made with both indexes within 0..7: the run with the strict subscript, which refuses
  any other index, gives the result of the call (with fuel for more than the 64 squares
  a search can visit).
\<close>

theorem validate_move_in_range:
  assumes "wf_board (board s)" "on_board ir ic" "on_board er ec"
  shows "fst (validate_move s ir ic er ec) \<noteq> Inl IndexError \<and>
         (memo (snd (validate_move s ir ic er ec)) = memo s \<or>
          memo (snd (validate_move s ir ic er ec)) \<subseteq> squares) \<and>
         (64 < fuel \<longrightarrow>
          validate_move_strict fuel s ir ic er ec = Some (validate_move s ir ic er ec))"
proof -
  from post_InrD[OF validate_move_safe[OF assms]] obtain x t where
    "validate_move s ir ic er ec = (Inr x, t)" and "memo t = memo s \<or> memo t \<subseteq> squares"
    by blast
  then show ?thesis
    using validate_move_strict_agree[OF assms, of fuel] by simp
qed

theorem validate_move_in_range_witness:
  "wf_board (board queen_state) \<and> on_board 4 3 \<and> on_board 6 5 \<and>
   fst (validate_move queen_state 4 3 6 5) \<noteq> Inl IndexError \<and>
   (memo (snd (validate_move queen_state 4 3 6 5)) = memo queen_state \<or>
    memo (snd (validate_move queen_state 4 3 6 5)) \<subseteq> squares) \<and>
   validate_move_strict 65 queen_state 4 3 6 5 = Some (validate_move queen_state 4 3 6 5)"
proof -
  have a: "on_board 4 3" and b: "on_board 6 5"
    by (simp_all add: on_board_def)
  show ?thesis
    using wf_queen_state a b validate_move_in_range[OF wf_queen_state a b, of 65] by simp
qed

end
